theory Spec2Isabelle
  imports Main
begin

section \<open>Python strings and paths\<close>

text \<open>
  A Python \<open>str\<close> is modelled as a \<open>string\<close>, one \<open>char\<close> per code point (the
  model covers texts over the code points 0 to 255, which include every character the
  patterns of the program name). A \<open>Path\<close> is its string form with \<open>/\<close> separators.
\<close>

type_synonym path = string

abbreviation bslash :: char where
  "bslash \<equiv> CHR 0x5C"

abbreviation newline :: char where
  "newline \<equiv> CHR 0x0A"

text \<open>\<open>s.lstrip(chars)\<close>: drops the longest leading run of characters of \<open>chars\<close>.\<close>

definition lstrip :: "string \<Rightarrow> string \<Rightarrow> string" where
  "lstrip chars s = dropWhile (\<lambda>c. c \<in> set chars) s"

text \<open>\<open>s.endswith(suf)\<close>.\<close>

definition endswith :: "string \<Rightarrow> string \<Rightarrow> bool" where
  "endswith s suf = (length suf \<le> length s \<and> drop (length s - length suf) s = suf)"

text \<open>\<open>s.rsplit(".", 1)[0]\<close> for a string that contains a dot: the part before the last dot.\<close>

definition rsplit_dot_head :: "string \<Rightarrow> string" where
  "rsplit_dot_head s = rev (tl (dropWhile (\<lambda>c. c \<noteq> CHR ''.'') (rev s)))"

text \<open>\<open>os.path.basename(p)\<close>: the part after the last \<open>/\<close>.\<close>

definition basename :: "string \<Rightarrow> string" where
  "basename p = rev (takeWhile (\<lambda>c. c \<noteq> CHR ''/'') (rev p))"

section \<open>The image resolver\<close>

text \<open>
  The image index is a dict from stem keys to paths; it is an association list in
  insertion order (the order the basename scan follows), looked up with \<open>map_of\<close>.
\<close>

type_synonym image_index = "(string \<times> path) list"

definition extension_preference :: "string list" where
  "extension_preference = [''.png'', ''.pdf'', ''.jpg'', ''.jpeg'', ''.eps'', ''.svg'']"

text \<open>The key the extension loop looks up for one extension.\<close>

definition ext_key :: "string \<Rightarrow> string \<Rightarrow> string" where
  "ext_key clean ext = (if \<not> endswith clean ext then clean @ ext else clean)"

definition key_no_ext :: "string \<Rightarrow> string \<Rightarrow> string" where
  "key_no_ext clean ext =
     (let key = ext_key clean ext
      in if CHR ''.'' \<in> set key then rsplit_dot_head key else key)"

text \<open>The loop \<open>for ext in [...]\<close>: returns at the first extension whose key is in the index.\<close>

fun try_extensions :: "string \<Rightarrow> image_index \<Rightarrow> string list \<Rightarrow> path option" where
  "try_extensions clean images [] = None"
| "try_extensions clean images (ext # exts) =
     (case map_of images (key_no_ext clean ext) of
        Some p \<Rightarrow> Some p
      | None \<Rightarrow> try_extensions clean images exts)"

text \<open>The loop \<open>for key, path in images.items()\<close> of the basename match.\<close>

fun basename_scan :: "string \<Rightarrow> image_index \<Rightarrow> path option" where
  "basename_scan b [] = None"
| "basename_scan b ((key, p) # rest) =
     (if basename key = b then Some p else basename_scan b rest)"

text \<open>The four stages of \<open>resolve_image\<close>, each on its own, in the order of the source.\<close>

definition stage_exact :: "string \<Rightarrow> image_index \<Rightarrow> path option" where
  "stage_exact img_ref images = map_of images img_ref"

definition stage_clean :: "string \<Rightarrow> image_index \<Rightarrow> path option" where
  "stage_clean img_ref images = map_of images (lstrip ''./'' img_ref)"

definition stage_extensions :: "string \<Rightarrow> image_index \<Rightarrow> path option" where
  "stage_extensions img_ref images =
     try_extensions (lstrip ''./'' img_ref) images extension_preference"

definition stage_basename :: "string \<Rightarrow> image_index \<Rightarrow> path option" where
  "stage_basename img_ref images =
     (let base = basename (lstrip ''./'' img_ref);
          base_no_ext = (if CHR ''.'' \<in> set base then rsplit_dot_head base else base)
      in basename_scan base_no_ext images)"

definition resolve_image :: "string \<Rightarrow> image_index \<Rightarrow> path option" where
  "resolve_image img_ref images =
     (case stage_exact img_ref images of
        Some p \<Rightarrow> Some p
      | None \<Rightarrow>
          (case stage_clean img_ref images of
             Some p \<Rightarrow> Some p
           | None \<Rightarrow>
               (case stage_extensions img_ref images of
                  Some p \<Rightarrow> Some p
                | None \<Rightarrow> stage_basename img_ref images)))"

text \<open>A reference without the extension, when it ends with it.\<close>

definition drop_ext :: "string \<Rightarrow> string \<Rightarrow> string" where
  "drop_ext clean ext =
     (if endswith clean ext then take (length clean - length ext) clean else clean)"

text \<open>
  Stage 3 as the specification words it, for comparison with \<open>key_no_ext\<close>: strip any
  extension the reference already carries, then append the extension of the list.
\<close>

definition spec_stage3_key :: "string \<Rightarrow> string \<Rightarrow> string" where
  "spec_stage3_key clean ext =
     (if CHR ''.'' \<in> set (basename clean) then rsplit_dot_head clean else clean) @ ext"

fun spec_try_extensions :: "string \<Rightarrow> image_index \<Rightarrow> string list \<Rightarrow> path option" where
  "spec_try_extensions clean images [] = None"
| "spec_try_extensions clean images (ext # exts) =
     (case map_of images (spec_stage3_key clean ext) of
        Some p \<Rightarrow> Some p
      | None \<Rightarrow> spec_try_extensions clean images exts)"

section \<open>Regular expressions\<close>

text \<open>
  A compiled pattern is modelled by its matcher: given the text from the scan position
  on, the length of the match that starts there and its group 1, or \<open>None\<close> when the
  pattern does not match at that position. The matchers below follow the backtracking
  order of the patterns. None of the patterns of the program matches the empty string.
\<close>

type_synonym matcher = "string \<Rightarrow> (nat \<times> string) option"

record re_match =
  m_start :: nat
  m_end :: nat
  m_group1 :: string

text \<open>
  \<open>pattern.finditer(s)\<close>: the non-overlapping matches, left to right; the scan
  resumes at the end of a match, and one character further where there is none.
\<close>

function finditer_from :: "matcher \<Rightarrow> nat \<Rightarrow> string \<Rightarrow> re_match list" where
  "finditer_from m pos [] = []"
| "finditer_from m pos (c # cs) =
     (case m (c # cs) of
        None \<Rightarrow> finditer_from m (Suc pos) cs
      | Some (len, g) \<Rightarrow>
          \<lparr>m_start = pos, m_end = pos + len, m_group1 = g\<rparr>
            # finditer_from m (pos + max 1 len) (drop (max 1 len) (c # cs)))"
  by pat_completeness auto
termination
  by (relation "measure (\<lambda>(m, pos, s). length s)") auto

definition finditer :: "matcher \<Rightarrow> string \<Rightarrow> re_match list" where
  "finditer m s = finditer_from m 0 s"

text \<open>\<open>pattern.findall(s)\<close> for a pattern with one group.\<close>

definition findall :: "matcher \<Rightarrow> string \<Rightarrow> string list" where
  "findall m s = map m_group1 (finditer m s)"

text \<open>\<open>pattern.search(s)\<close>: the first match.\<close>

definition re_search :: "matcher \<Rightarrow> string \<Rightarrow> re_match option" where
  "re_search m s = (case finditer m s of [] \<Rightarrow> None | x # _ \<Rightarrow> Some x)"

text \<open>\<open>re.sub(pattern, r"\1", s)\<close>: every match replaced by its group 1.\<close>

function sub_group1 :: "matcher \<Rightarrow> string \<Rightarrow> string" where
  "sub_group1 m [] = []"
| "sub_group1 m (c # cs) =
     (case m (c # cs) of
        None \<Rightarrow> c # sub_group1 m cs
      | Some (len, g) \<Rightarrow> g @ sub_group1 m (drop (max 1 len) (c # cs)))"
  by pat_completeness auto
termination
  by (relation "measure (\<lambda>(m, s). length s)") auto

text \<open>A literal prefix: the rest of the text after it.\<close>

definition after_prefix :: "string \<Rightarrow> string \<Rightarrow> string option" where
  "after_prefix p s = (if take (length p) s = p then Some (drop (length p) s) else None)"

text \<open>
  \<open>.*?\<close> followed by the rest of the pattern \<open>k\<close>: the shortest run after which
  \<open>k\<close> matches. Without \<open>DOTALL\<close> the dot does not match a newline.
\<close>

fun lazy_dot :: "bool \<Rightarrow> (string \<Rightarrow> 'a option) \<Rightarrow> string \<Rightarrow> (string \<times> 'a) option" where
  "lazy_dot dotall k [] = map_option (Pair []) (k [])"
| "lazy_dot dotall k (c # cs) =
     (case k (c # cs) of
        Some r \<Rightarrow> Some ([], r)
      | None \<Rightarrow>
          if \<not> dotall \<and> c = newline then None
          else map_option (\<lambda>(b, r). (c # b, r)) (lazy_dot dotall k cs))"

text \<open>One literal character, then the rest of the pattern.\<close>

definition lit :: "char \<Rightarrow> (string \<Rightarrow> 'a option) \<Rightarrow> string \<Rightarrow> 'a option" where
  "lit x k s = (case s of [] \<Rightarrow> None | c # r \<Rightarrow> if c = x then k r else None)"

text \<open>\<open>\{([^}]+)\}\<close>: a non-empty braced argument without a closing brace inside.\<close>

definition brace_arg :: matcher where
  "brace_arg s =
     lit CHR ''{''
       (\<lambda>r. let g = takeWhile (\<lambda>c. c \<noteq> CHR ''}'') r
            in if g = [] \<or> dropWhile (\<lambda>c. c \<noteq> CHR ''}'') r = [] then None
               else Some (length g + 2, g)) s"

text \<open>
  \<open>(?:\[.*?\])?\<close> followed by \<open>k\<close>: the bracketed option group is tried first
  (its closing bracket is the first one after which \<open>k\<close> matches), then \<open>k\<close> alone.
\<close>

definition bracket_then :: "bool \<Rightarrow> matcher \<Rightarrow> matcher" where
  "bracket_then dotall k s =
     lit CHR ''[''
       (\<lambda>r. case lazy_dot dotall (lit CHR '']'' k) r of
              None \<Rightarrow> None
            | Some (opt, (n, g)) \<Rightarrow> Some (length opt + 2 + n, g)) s"

definition opt_bracket_then :: "bool \<Rightarrow> matcher \<Rightarrow> matcher" where
  "opt_bracket_then dotall k s =
     (case bracket_then dotall k s of Some r \<Rightarrow> Some r | None \<Rightarrow> k s)"

text \<open>A backslash keyword, then the rest of the pattern.\<close>

definition keyword_then :: "string \<Rightarrow> matcher \<Rightarrow> matcher" where
  "keyword_then kw k s =
     (case after_prefix (bslash # kw) s of
        None \<Rightarrow> None
      | Some r \<Rightarrow> map_option (\<lambda>(n, g). (Suc (length kw) + n, g)) (k r))"

text \<open>\<open>\\(?:input|include)\{([^}]+)\}\<close>\<close>

definition input_pattern :: matcher where
  "input_pattern s =
     (case keyword_then ''input'' brace_arg s of
        Some r \<Rightarrow> Some r
      | None \<Rightarrow> keyword_then ''include'' brace_arg s)"

text \<open>\<open>\*?\}\<close>: the number of characters it matches.\<close>

definition star_close :: "string \<Rightarrow> nat option" where
  "star_close s =
     (case lit CHR ''*'' (lit CHR ''}'' (\<lambda>_. Some (2::nat))) s of
        Some n \<Rightarrow> Some n
      | None \<Rightarrow> lit CHR ''}'' (\<lambda>_. Some 1) s)"

text \<open>\<open>\\end\{figure\*?\}\<close>: the length of the end marker at the start of the text.\<close>

definition fig_end :: "string \<Rightarrow> nat option" where
  "fig_end s =
     (case after_prefix (bslash # ''end{figure'') s of
        None \<Rightarrow> None
      | Some r \<Rightarrow> map_option (\<lambda>n. 11 + n) (star_close r))"

text \<open>\<open>\\begin\{figure\*?\}(.*?)\\end\{figure\*?\}\<close> with \<open>DOTALL\<close>\<close>

definition fig_pattern :: matcher where
  "fig_pattern s =
     (case after_prefix (bslash # ''begin{figure'') s of
        None \<Rightarrow> None
      | Some r \<Rightarrow>
          (case star_close r of
             None \<Rightarrow> None
           | Some n \<Rightarrow>
               (case lazy_dot True fig_end (drop n r) of
                  None \<Rightarrow> None
                | Some (body, e) \<Rightarrow> Some (13 + n + length body + e, body))))"

text \<open>\<open>\\includegraphics(?:\[.*?\])?\{([^}]+)\}\<close>\<close>

definition img_pattern :: matcher where
  "img_pattern = keyword_then ''includegraphics'' (opt_bracket_then False brace_arg)"

text \<open>\<open>\{(.+?)\}\<close> with \<open>DOTALL\<close>: one character, then the shortest run up to a closing brace.\<close>

definition cap_arg :: matcher where
  "cap_arg s =
     lit CHR ''{''
       (\<lambda>r. case r of
              [] \<Rightarrow> None
            | c # t \<Rightarrow>
                (case lazy_dot True (lit CHR ''}'' (\<lambda>_. Some ())) t of
                   None \<Rightarrow> None
                 | Some (b, _) \<Rightarrow> Some (length b + 3, c # b))) s"

text \<open>\<open>\\caption(?:\[.*?\])?\{(.+?)\}\<close> with \<open>DOTALL\<close>\<close>

definition cap_pattern :: matcher where
  "cap_pattern = keyword_then ''caption'' (opt_bracket_then True cap_arg)"

definition is_ascii_letter :: "char \<Rightarrow> bool" where
  "is_ascii_letter c =
     (let n = (of_char c :: nat) in (65 \<le> n \<and> n \<le> 90) \<or> (97 \<le> n \<and> n \<le> 122))"

text \<open>\<open>\\[a-zA-Z]+\{([^}]*)\}\<close>\<close>

definition cmd_pattern :: matcher where
  "cmd_pattern s =
     lit bslash
       (\<lambda>r. let name = takeWhile is_ascii_letter r
            in if name = [] then None
               else lit CHR ''{''
                      (\<lambda>t. let g = takeWhile (\<lambda>c. c \<noteq> CHR ''}'') t
                           in if dropWhile (\<lambda>c. c \<noteq> CHR ''}'') t = [] then None
                              else Some (length name + length g + 3, g))
                      (dropWhile is_ascii_letter r)) s"

section \<open>The figure parser\<close>

text \<open>Whitespace as \<open>str.strip\<close> and \<open>str.split\<close> see it.\<close>

definition is_space :: "char \<Rightarrow> bool" where
  "is_space c =
     (let n = (of_char c :: nat)
      in (9 \<le> n \<and> n \<le> 13) \<or> (28 \<le> n \<and> n \<le> 32) \<or> n = 133 \<or> n = 160)"

definition strip :: "string \<Rightarrow> string" where
  "strip s = rev (dropWhile is_space (rev (dropWhile is_space s)))"

text \<open>\<open>s.split()\<close>: the maximal runs of non-whitespace; \<open>cur\<close> is the word being read.\<close>

fun split_from :: "string \<Rightarrow> string \<Rightarrow> string list" where
  "split_from cur [] = (if cur = [] then [] else [cur])"
| "split_from cur (c # cs) =
     (if is_space c then (if cur = [] then split_from [] cs else cur # split_from [] cs)
      else split_from (cur @ [c]) cs)"

definition split_ws :: "string \<Rightarrow> string list" where
  "split_ws s = split_from [] s"

text \<open>\<open>" ".join(words)\<close>\<close>

fun join_space :: "string list \<Rightarrow> string" where
  "join_space [] = []"
| "join_space [w] = w"
| "join_space (w # v # ws) = w @ '' '' @ join_space (v # ws)"

record figure =
  number :: nat
  image_paths :: "string list"
  caption :: string

text \<open>The caption of a figure body after the clean-up, before the length check.\<close>

definition cleaned_caption :: "string \<Rightarrow> string" where
  "cleaned_caption body =
     (let caption = (case re_search cap_pattern body of
                       Some cap_match \<Rightarrow> strip (m_group1 cap_match)
                     | None \<Rightarrow> []);
          caption = sub_group1 cmd_pattern caption;
          caption = filter (\<lambda>c. c \<noteq> CHR ''{'' \<and> c \<noteq> CHR ''}'') caption
      in join_space (split_ws caption))"

definition figure_caption :: "string \<Rightarrow> string" where
  "figure_caption body =
     (let caption = cleaned_caption body
      in if length caption > 120 then take 117 caption @ ''...'' else caption)"

text \<open>The loop \<open>for match in fig_pattern.finditer(tex_content)\<close>.\<close>

fun figures_loop :: "nat \<Rightarrow> re_match list \<Rightarrow> figure list \<Rightarrow> figure list" where
  "figures_loop fig_num [] figures = figures"
| "figures_loop fig_num (match # rest) figures =
     (let fig_num = fig_num + 1;
          body = m_group1 match;
          img_paths = findall img_pattern body
      in figures_loop fig_num rest
           (figures @ [\<lparr>number = fig_num, image_paths = img_paths,
                         caption = figure_caption body\<rparr>]))"

definition parse_figures_from_tex :: "string \<Rightarrow> figure list" where
  "parse_figures_from_tex tex_content = figures_loop 0 (finditer fig_pattern tex_content) []"

text \<open>The record the loop appends for a match with this body once \<open>fig_num\<close> is \<open>n\<close>.\<close>

definition figure_of :: "nat \<Rightarrow> string \<Rightarrow> figure" where
  "figure_of n body =
     \<lparr>number = n, image_paths = findall img_pattern body, caption = figure_caption body\<rparr>"

text \<open>An end marker of a figure environment somewhere in the text.\<close>

fun has_fig_end :: "string \<Rightarrow> bool" where
  "has_fig_end [] = False"
| "has_fig_end (c # cs) = (fig_end (c # cs) \<noteq> None \<or> has_fig_end cs)"

section \<open>The extraction pipeline\<close>

definition MAX_FIGURES :: nat where
  "MAX_FIGURES = 10"

text \<open>\<open>Path.suffix\<close>: the last dot of the final component and what follows, when the dot
  is neither the first nor the last character of the component.\<close>

definition path_suffix :: "path \<Rightarrow> string" where
  "path_suffix p =
     (let name = basename p
      in if CHR ''.'' \<in> set name then
           (let i = length (rsplit_dot_head name)
            in if 0 < i \<and> i < length name - 1 then drop i name else [])
         else [])"

text \<open>\<open>Path.with_suffix("")\<close>\<close>

definition without_suffix :: "path \<Rightarrow> path" where
  "without_suffix p = take (length p - length (path_suffix p)) p"

definition lower_char :: "char \<Rightarrow> char" where
  "lower_char c =
     (let n = (of_char c :: nat)
      in if (65 \<le> n \<and> n \<le> 90) \<or> (192 \<le> n \<and> n \<le> 222 \<and> n \<noteq> 215)
         then char_of (n + 32) else c)"

definition lower :: "string \<Rightarrow> string" where
  "lower s = map lower_char s"

text \<open>\<open>str(n)\<close> for a natural number.\<close>

fun str_nat :: "nat \<Rightarrow> string" where
  "str_nat n =
     (if n < 10 then [char_of (48 + n)] else str_nat (n div 10) @ [char_of (48 + n mod 10)])"

text \<open>\<open>dir / name\<close> for a relative name.\<close>

definition path_join :: "path \<Rightarrow> string \<Rightarrow> path" where
  "path_join d name = d @ ''/'' @ name"

text \<open>
  How the run of the external rasterizer ends: it completes (and then the bitmap exists
  or not), or \<open>subprocess.run\<close> raises one of the three exceptions the code catches.
\<close>

datatype run_outcome =
  Completed bool | CalledProcessError | FileNotFoundError | TimeoutExpired

record environment =
  images :: image_index
  pdftoppm :: "path \<Rightarrow> string \<Rightarrow> run_outcome"
  out_dir :: path

definition convert_pdf_to_png :: "environment \<Rightarrow> path \<Rightarrow> path \<Rightarrow> bool" where
  "convert_pdf_to_png env pdf_path png_path =
     (case pdftoppm env pdf_path (without_suffix png_path) of
        Completed png_exists \<Rightarrow> png_exists
      | CalledProcessError \<Rightarrow> False
      | FileNotFoundError \<Rightarrow> False
      | TimeoutExpired \<Rightarrow> False)"

record saved_figure =
  s_number :: nat
  s_caption :: string
  filename :: string
  saved_path :: path

text \<open>What a file of the output directory holds: a copy of a source file, or its bitmap.\<close>

datatype file_origin = Copy_of path | Bitmap_of path

record extraction =
  saved_figures :: "saved_figure list"
  written :: "(path \<times> file_origin) list"

text \<open>Saving one resolved image of a figure: the body of the inner loop after its two
  \<open>continue\<close> checks.\<close>

definition save_image :: "environment \<Rightarrow> figure \<Rightarrow> path \<Rightarrow> string \<Rightarrow> extraction \<Rightarrow> extraction" where
  "save_image env fig resolved ext st =
     (let (dest_name, origin) =
            (if ext = ''.pdf'' then
               (if convert_pdf_to_png env resolved
                     (path_join (out_dir env) (''figure'' @ str_nat (number fig) @ ''.png''))
                then (''figure'' @ str_nat (number fig) @ ''.png'', Bitmap_of resolved)
                else (''figure'' @ str_nat (number fig) @ ''.pdf'', Copy_of resolved))
             else (''figure'' @ str_nat (number fig) @ ext, Copy_of resolved));
          dest_path = path_join (out_dir env) dest_name
      in \<lparr>saved_figures = saved_figures st @
             [\<lparr>s_number = number fig, s_caption = caption fig,
               filename = dest_name, saved_path = dest_path\<rparr>],
          written = written st @ [(dest_path, origin)]\<rparr>)"

text \<open>The loop \<open>for img_ref in fig["image_paths"]\<close>, which ends at the first save.\<close>

fun refs_loop :: "environment \<Rightarrow> figure \<Rightarrow> string list \<Rightarrow> extraction \<Rightarrow> extraction" where
  "refs_loop env fig [] st = st"
| "refs_loop env fig (img_ref # rest) st =
     (case resolve_image img_ref (images env) of
        None \<Rightarrow> refs_loop env fig rest st
      | Some resolved \<Rightarrow>
          (let ext = lower (path_suffix resolved)
           in if ext = ''.eps'' then refs_loop env fig rest st
              else save_image env fig resolved ext st))"

text \<open>The loop \<open>for fig in figures\<close>, which ends once \<open>MAX_FIGURES\<close> figures are saved.\<close>

fun save_loop :: "environment \<Rightarrow> figure list \<Rightarrow> extraction \<Rightarrow> extraction" where
  "save_loop env [] st = st"
| "save_loop env (fig # rest) st =
     (if length (saved_figures st) \<ge> MAX_FIGURES then st
      else save_loop env rest (refs_loop env fig (image_paths fig) st))"

text \<open>The part of \<open>extract_figures\<close> from the assembled text on.\<close>

definition extract_from_text :: "environment \<Rightarrow> string \<Rightarrow> extraction" where
  "extract_from_text env tex_content =
     save_loop env (parse_figures_from_tex tex_content) \<lparr>saved_figures = [], written = []\<rparr>"

text \<open>The first image reference of a figure resolves to a file that is saved.\<close>

definition first_ref_savable :: "environment \<Rightarrow> figure \<Rightarrow> bool" where
  "first_ref_savable env fig =
     (case image_paths fig of
        [] \<Rightarrow> False
      | img_ref # _ \<Rightarrow>
          (case resolve_image img_ref (images env) of
             None \<Rightarrow> False
           | Some resolved \<Rightarrow> lower (path_suffix resolved) \<noteq> ''.eps''))"

text \<open>The rasterizer run fails: the tool is missing, exits non-zero, or times out.\<close>

definition run_failed :: "run_outcome \<Rightarrow> bool" where
  "run_failed r = (r = FileNotFoundError \<or> r = CalledProcessError \<or> r = TimeoutExpired)"

section \<open>The document assembler\<close>

text \<open>The exceptions that leave \<open>resolve_tex_content\<close>.\<close>

datatype exn = OSError | RuntimeError | RecursionError

text \<open>
  The source tree and the interpreter as the assembler sees them. \<open>resolve\<close> is
  \<open>str(Path.resolve())\<close>, the canonical identity of a path, or \<open>None\<close> when
  \<open>resolve()\<close> raises (a \<open>RuntimeError\<close>, on a symlink loop). \<open>exists_raises\<close>
  tells the paths on which \<open>exists()\<close> raises an \<open>OSError\<close> (a name that is too
  long, a directory that may not be searched). \<open>parent\<close> and \<open>join\<close> are
  \<open>Path.parent\<close> and the \<open>/\<close> of paths. \<open>files\<close> lists the regular files of the
  tree by canonical identity, each with its text, or with \<open>None\<close> when reading it
  raises. \<open>overflow_in_read\<close> tells where a call that the recursion limit leaves no
  room for overflows: inside \<open>read_text\<close>, whose \<open>RecursionError\<close> the code catches
  like any other, or before it.
\<close>

record source_tree =
  resolve :: "path \<Rightarrow> string option"
  exists_raises :: "path \<Rightarrow> bool"
  parent :: "path \<Rightarrow> path"
  join :: "path \<Rightarrow> string \<Rightarrow> path"
  files :: "(string \<times> string option) list"
  overflow_in_read :: bool

text \<open>\<open>p.exists() and p.is_file()\<close> on a path where \<open>exists()\<close> does not raise.\<close>

definition is_file :: "source_tree \<Rightarrow> path \<Rightarrow> bool" where
  "is_file T p =
     (case resolve T p of
        None \<Rightarrow> False
      | Some resolved \<Rightarrow> map_of (files T) resolved \<noteq> None)"

text \<open>\<open>p.read_text(...)\<close>: \<open>None\<close> when it raises.\<close>

definition read_text :: "source_tree \<Rightarrow> path \<Rightarrow> string option" where
  "read_text T p =
     (case resolve T p of
        None \<Rightarrow> None
      | Some resolved \<Rightarrow>
          (case map_of (files T) resolved of
             None \<Rightarrow> None
           | Some None \<Rightarrow> None
           | Some (Some content) \<Rightarrow> Some content))"

text \<open>The loop \<open>for c in candidates\<close>; the \<open>OSError\<close> of \<open>exists()\<close> is not caught.\<close>

fun first_file :: "source_tree \<Rightarrow> path list \<Rightarrow> exn + path option" where
  "first_file T [] = Inr None"
| "first_file T (c # cs) =
     (if exists_raises T c then Inl OSError
      else if is_file T c then Inr (Some c)
      else first_file T cs)"

definition find_tex_file ::
    "source_tree \<Rightarrow> string \<Rightarrow> path \<Rightarrow> path \<Rightarrow> exn + path option" where
  "find_tex_file T ref parent_dir src_dir =
     (let candidates = [join T parent_dir ref, join T parent_dir (ref @ ''.tex''),
                        join T src_dir ref, join T src_dir (ref @ ''.tex'')]
      in first_file T candidates)"

text \<open>\<open>s[a:b]\<close> for indices from 0 on.\<close>

definition slice :: "string \<Rightarrow> nat \<Rightarrow> nat \<Rightarrow> string" where
  "slice s a b = take (b - a) (drop a s)"

text \<open>
  The state that one top-level call threads through its recursive calls: the
  \<open>visited\<close> set of the source and, for the statements below only, the log
  \<open>expanded\<close> of the calls that passed the visited check, in order. The log has no
  influence on the text or on \<open>visited\<close>. The set is one object that every call
  updates in place, so the state is returned with an exception as well.
\<close>

record assembly =
  visited :: "string set"
  expanded :: "string list"

text \<open>
  \<open>resolve_tex_content\<close> and its loop over the inclusion directives. \<open>frames\<close> is
  the number of nested calls, each with the library calls of its body, that the
  recursion limit of the interpreter still allows. A call that finds no frame left
  overflows: either before \<open>read_text\<close>, and the \<open>RecursionError\<close> leaves the call, or
  inside \<open>read_text\<close>, and the call returns the empty text as for an unreadable file.
  The test \<open>child and child.exists()\<close> of the loop is on the path that
  \<open>_find_tex_file\<close> has just found to exist, so it holds whenever a child is found.
\<close>

fun resolve_tex_content ::
    "nat \<Rightarrow> source_tree \<Rightarrow> path \<Rightarrow> path \<Rightarrow> assembly \<Rightarrow> (exn + string) \<times> assembly"
  and include_loop ::
    "nat \<Rightarrow> source_tree \<Rightarrow> path \<Rightarrow> path \<Rightarrow> string \<Rightarrow> re_match list \<Rightarrow> nat \<Rightarrow> string list
       \<Rightarrow> assembly \<Rightarrow> (exn + string) \<times> assembly" where
  "resolve_tex_content 0 T tex_path src_dir st =
     (if \<not> overflow_in_read T then (Inl RecursionError, st)
      else
        (case resolve T tex_path of
           None \<Rightarrow> (Inl RuntimeError, st)
         | Some resolved \<Rightarrow>
             if resolved \<in> visited st then (Inr [], st)
             else (Inr [], \<lparr>visited = insert resolved (visited st),
                             expanded = expanded st @ [resolved]\<rparr>)))"
| "resolve_tex_content (Suc frames) T tex_path src_dir st =
     (case resolve T tex_path of
        None \<Rightarrow> (Inl RuntimeError, st)
      | Some resolved \<Rightarrow>
          if resolved \<in> visited st then (Inr [], st)
          else
            (let st = \<lparr>visited = insert resolved (visited st),
                       expanded = expanded st @ [resolved]\<rparr>
             in case read_text T tex_path of
                  None \<Rightarrow> (Inr [], st)
                | Some content \<Rightarrow>
                    include_loop frames T tex_path src_dir content
                      (finditer input_pattern content) 0 [] st))"
| "include_loop frames T tex_path src_dir content [] last_end result st =
     (Inr (concat (result @ [drop last_end content])), st)"
| "include_loop frames T tex_path src_dir content (match # rest) last_end result st =
     (let result = result @ [slice content last_end (m_start match)];
          ref = m_group1 match
      in case find_tex_file T ref (parent T tex_path) src_dir of
           Inl e \<Rightarrow> (Inl e, st)
         | Inr None \<Rightarrow>
             include_loop frames T tex_path src_dir content rest (m_end match) result st
         | Inr (Some child) \<Rightarrow>
             (case resolve_tex_content frames T child src_dir st of
                (Inl e, st') \<Rightarrow> (Inl e, st')
              | (Inr text, st') \<Rightarrow>
                  include_loop frames T tex_path src_dir content rest (m_end match)
                    (result @ [text]) st'))"

text \<open>A top-level call (\<open>visited=None\<close>).\<close>

definition assemble ::
    "nat \<Rightarrow> source_tree \<Rightarrow> path \<Rightarrow> path \<Rightarrow> (exn + string) \<times> assembly" where
  "assemble frames T tex_path src_dir =
     resolve_tex_content frames T tex_path src_dir \<lparr>visited = {}, expanded = []\<rparr>"

text \<open>The number of files of the tree that a call has not visited yet: it bounds the
  depth of the recursion.\<close>

definition unvisited :: "source_tree \<Rightarrow> assembly \<Rightarrow> nat" where
  "unvisited T st = card (fst ` set (files T) - visited st)"

text \<open>Every file of the log occurs once in it, and the log lists the visited set.\<close>

definition log_ok :: "assembly \<Rightarrow> bool" where
  "log_ok st = (distinct (expanded st) \<and> set (expanded st) = visited st)"

text \<open>The text of a file without its directives, from \<open>last_end\<close> on.\<close>

fun own_text :: "string \<Rightarrow> re_match list \<Rightarrow> nat \<Rightarrow> string" where
  "own_text content [] last_end = drop last_end content"
| "own_text content (match # rest) last_end =
     slice content last_end (m_start match) @ own_text content rest (m_end match)"

text \<open>The directive of a match names no file, or a file of the set \<open>V\<close>.\<close>

definition target_in :: "source_tree \<Rightarrow> path \<Rightarrow> path \<Rightarrow> string set \<Rightarrow> re_match \<Rightarrow> bool" where
  "target_in T tex_path src_dir V match =
     (case find_tex_file T (m_group1 match) (parent T tex_path) src_dir of
        Inl e \<Rightarrow> False
      | Inr None \<Rightarrow> True
      | Inr (Some child) \<Rightarrow>
          (case resolve T child of None \<Rightarrow> False | Some resolved \<Rightarrow> resolved \<in> V))"

text \<open>Two results of a call agree, are no overflow, and keep what was visited: what the
  calls with one frame more and one frame less give once there are frames enough.\<close>

definition deep_enough ::
    "((exn + string) \<times> assembly) \<Rightarrow> ((exn + string) \<times> assembly) \<Rightarrow> assembly \<Rightarrow> bool" where
  "deep_enough r r' st =
     (r = r' \<and> fst r \<noteq> Inl RecursionError \<and> visited st \<subseteq> visited (snd r))"

text \<open>A tree of one directory where a path is a file name and its own canonical identity,
  and nothing raises.\<close>

definition flat_tree :: "(string \<times> string option) list \<Rightarrow> source_tree" where
  "flat_tree fs =
     \<lparr>resolve = (\<lambda>p. Some p), exists_raises = (\<lambda>p. False), parent = (\<lambda>p. []),
      join = (\<lambda>d name. name), files = fs, overflow_in_read = False\<rparr>"

section \<open>Properties of the image resolver\<close>

lemma rsplit_dot_head_append_ext:
  assumes "CHR ''.'' \<notin> set e"
  shows "rsplit_dot_head (s @ CHR ''.'' # e) = s"
proof -
  have "dropWhile (\<lambda>c. c \<noteq> CHR ''.'') (rev e @ CHR ''.'' # rev s) = CHR ''.'' # rev s"
    using assms by (subst dropWhile_append2) auto
  then show ?thesis
    by (simp add: rsplit_dot_head_def)
qed

lemma endswith_split: "endswith s suf \<Longrightarrow> s = take (length s - length suf) s @ suf"
  unfolding endswith_def by (metis append_take_drop_id)

lemma key_no_ext_char:
  assumes "CHR ''.'' \<notin> set e"
  shows "key_no_ext clean (CHR ''.'' # e) =
         (if endswith clean (CHR ''.'' # e) then take (length clean - length (CHR ''.'' # e)) clean else clean)"
proof (cases "endswith clean (CHR ''.'' # e)")
  case True
  from endswith_split[OF True] obtain pre where pre: "clean = pre @ CHR ''.'' # e" "pre = take (length clean - length (CHR ''.'' # e)) clean"
    by blast
  have "key_no_ext clean (CHR ''.'' # e) = rsplit_dot_head clean"
    using True pre(1) by (simp add: key_no_ext_def ext_key_def)
  also have "\<dots> = pre" using pre(1) rsplit_dot_head_append_ext[OF assms] by simp
  finally show ?thesis using True pre(2) by simp
next
  case False
  then show ?thesis
    by (simp add: key_no_ext_def ext_key_def rsplit_dot_head_append_ext[OF assms])
qed

lemma key_no_ext_preference:
  "ext \<in> set extension_preference \<Longrightarrow>
     key_no_ext clean ext =
       (if endswith clean ext then take (length clean - length ext) clean else clean)"
  unfolding extension_preference_def
  using key_no_ext_char [of "''png''" clean] key_no_ext_char [of "''pdf''" clean]
    key_no_ext_char [of "''jpg''" clean] key_no_ext_char [of "''jpeg''" clean]
    key_no_ext_char [of "''eps''" clean] key_no_ext_char [of "''svg''" clean]
  by auto

lemmas resolve_defs = resolve_image_def stage_exact_def stage_clean_def stage_extensions_def
  stage_basename_def basename_def lstrip_def extension_preference_def key_no_ext_def
  ext_key_def endswith_def rsplit_dot_head_def

text \<open>
  C6: resolution prefers the exact stem key to every fallback stage. Whenever the
  reference itself is a key of the index, \<open>resolve_image\<close> returns the file of that key;
  with the reference \<open>figs/plot\<close> and the keys \<open>figs/plot\<close> (file A) and \<open>plot\<close>
  (file B), in either insertion order, it returns A.
\<close>

theorem resolve_image_exact_first:
  "(map_of idx img_ref = Some p \<longrightarrow> resolve_image img_ref idx = Some p)
   \<and> resolve_image ''figs/plot'' [(''figs/plot'', A), (''plot'', B)] = Some A
   \<and> resolve_image ''figs/plot'' [(''plot'', B), (''figs/plot'', A)] = Some A"
  by (simp add: resolve_image_def stage_exact_def)

theorem resolve_image_exact_first_witness:
  "map_of [(''plot'', ''/src/plot.png''), (''figs/plot'', ''/src/figs/plot.png'')] ''figs/plot''
     = Some ''/src/figs/plot.png''
   \<and> resolve_image ''figs/plot'' [(''plot'', ''/src/plot.png''), (''figs/plot'', ''/src/figs/plot.png'')]
     = Some ''/src/figs/plot.png''"
  using resolve_image_exact_first
    [of "[(''plot'', ''/src/plot.png''), (''figs/plot'', ''/src/figs/plot.png'')]"
        "''figs/plot''" "''/src/figs/plot.png''"]
  by simp

text \<open>
  C7, as stated, fails twice. For the reference \<open>./diagrams/arch.png\<close> the lookup of
  the qualifier-stripped reference (stage 2) misses, and the file is found by the
  extension loop (stage 3). And the extension loop never looks up a key with an extension
  appended: for the reference \<open>arch\<close> and an index with the key \<open>arch.pdf\<close>, the
  stage as the specification words it finds the key, the code finds nothing.
\<close>

theorem stage3_as_specified_counterexample:
  "stage_clean ''./diagrams/arch.png'' [(''diagrams/arch'', ''X'')] = None
   \<and> stage_extensions ''./diagrams/arch.png'' [(''diagrams/arch'', ''X'')] = Some ''X''
   \<and> spec_try_extensions (lstrip ''./'' ''arch'') [(''arch.pdf'', ''Y'')] extension_preference = Some ''Y''
   \<and> stage_extensions ''arch'' [(''arch.pdf'', ''Y'')] = None
   \<and> resolve_image ''arch'' [(''arch.pdf'', ''Y'')] = None"
  by (simp add: resolve_defs spec_stage3_key_def)

lemma try_extensions_find:
  "try_extensions clean idx exts =
     (case find (\<lambda>ext. map_of idx (key_no_ext clean ext) \<noteq> None) exts of
        None \<Rightarrow> None
      | Some ext \<Rightarrow> map_of idx (key_no_ext clean ext))"
  by (induction exts) (auto split: option.splits)

lemma stage_extensions_find:
  "stage_extensions r idx =
     (case find (\<lambda>ext. map_of idx (drop_ext (lstrip ''./'' r) ext) \<noteq> None)
             [''.png'', ''.pdf'', ''.jpg'', ''.jpeg'', ''.eps'', ''.svg''] of
        None \<Rightarrow> None
      | Some ext \<Rightarrow> map_of idx (drop_ext (lstrip ''./'' r) ext))"
proof -
  let ?clean = "lstrip ''./'' r"
  have key: "key_no_ext ?clean ext = drop_ext ?clean ext" if "ext \<in> set extension_preference" for ext
    using key_no_ext_preference [OF that] by (simp add: drop_ext_def)
  have f: "find (\<lambda>ext. map_of idx (key_no_ext ?clean ext) \<noteq> None) extension_preference =
      find (\<lambda>ext. map_of idx (drop_ext ?clean ext) \<noteq> None) extension_preference"
    by (rule find_cong) (simp_all add: key)
  show ?thesis
  proof (cases "find (\<lambda>ext. map_of idx (drop_ext ?clean ext) \<noteq> None) extension_preference")
    case None
    then show ?thesis
      using f by (simp add: stage_extensions_def try_extensions_find extension_preference_def)
  next
    case (Some ext)
    then have "ext \<in> set extension_preference"
      by (auto simp: find_Some_iff)
    then show ?thesis
      using Some f key
      by (simp add: stage_extensions_def try_extensions_find extension_preference_def)
  qed
qed

lemma first_found_None:
  "(case find (\<lambda>x. f x \<noteq> None) xs of None \<Rightarrow> None | Some x \<Rightarrow> f x) = None
     \<longleftrightarrow> (\<forall>x \<in> set xs. f x = None)"
  by (induction xs) auto

lemma stage_extensions_None:
  "stage_extensions r idx = None \<longleftrightarrow>
     (\<forall>ext \<in> set [''.png'', ''.pdf'', ''.jpg'', ''.jpeg'', ''.eps'', ''.svg''].
        map_of idx (drop_ext (lstrip ''./'' r) ext) = None)"
  unfolding stage_extensions_find
  by (rule first_found_None
        [of "\<lambda>ext. map_of idx (drop_ext (lstrip ''./'' r) ext)"
            "[''.png'', ''.pdf'', ''.jpg'', ''.jpeg'', ''.eps'', ''.svg'']"])

text \<open>
  C7, amended: for the index with the one key \<open>diagrams/arch\<close> (file X) and the
  reference \<open>./diagrams/arch.png\<close>, \<open>resolve_image\<close> returns X; the exact lookup
  and the lookup of the qualifier-stripped reference miss, and the extension loop finds
  the key at its first extension \<open>.png\<close>. Stage 3 goes through the extensions
  \<open>.png\<close>, \<open>.pdf\<close>, \<open>.jpg\<close>, \<open>.jpeg\<close>, \<open>.eps\<close>, \<open>.svg\<close> in this order and
  looks up, for each, the qualifier-stripped reference without that extension when the
  reference ends with it, and the qualifier-stripped reference itself otherwise; it
  returns the file of the first of these keys that the index has, and finds nothing
  exactly when the index has none of them. When stages 1 and 2 miss, the result of
  \<open>resolve_image\<close> is that of stage 3, and that of the basename match when stage 3
  finds nothing.
\<close>

theorem resolve_image_stage3:
  "resolve_image ''./diagrams/arch.png'' [(''diagrams/arch'', X)] = Some X
   \<and> stage_exact ''./diagrams/arch.png'' [(''diagrams/arch'', X)] = None
   \<and> stage_clean ''./diagrams/arch.png'' [(''diagrams/arch'', X)] = None
   \<and> stage_extensions ''./diagrams/arch.png'' [(''diagrams/arch'', X)] = Some X
   \<and> key_no_ext (lstrip ''./'' ''./diagrams/arch.png'') ''.png'' = ''diagrams/arch''
   \<and> (ext \<in> set extension_preference \<longrightarrow>
        key_no_ext clean ext =
          (if endswith clean ext then take (length clean - length ext) clean else clean))
   \<and> extension_preference = [''.png'', ''.pdf'', ''.jpg'', ''.jpeg'', ''.eps'', ''.svg'']
   \<and> drop_ext clean ext =
        (if endswith clean ext then take (length clean - length ext) clean else clean)
   \<and> stage_extensions r idx =
        (case find (\<lambda>ext. map_of idx (drop_ext (lstrip ''./'' r) ext) \<noteq> None)
                [''.png'', ''.pdf'', ''.jpg'', ''.jpeg'', ''.eps'', ''.svg''] of
           None \<Rightarrow> None
         | Some ext \<Rightarrow> map_of idx (drop_ext (lstrip ''./'' r) ext))
   \<and> (stage_extensions r idx = None \<longleftrightarrow>
        (\<forall>ext \<in> set [''.png'', ''.pdf'', ''.jpg'', ''.jpeg'', ''.eps'', ''.svg''].
           map_of idx (drop_ext (lstrip ''./'' r) ext) = None))
   \<and> (stage_exact r idx = None \<and> stage_clean r idx = None \<longrightarrow>
        resolve_image r idx =
          (case stage_extensions r idx of Some p \<Rightarrow> Some p | None \<Rightarrow> stage_basename r idx))"
proof -
  have ex: "resolve_image ''./diagrams/arch.png'' [(''diagrams/arch'', X)] = Some X
   \<and> stage_exact ''./diagrams/arch.png'' [(''diagrams/arch'', X)] = None
   \<and> stage_clean ''./diagrams/arch.png'' [(''diagrams/arch'', X)] = None
   \<and> stage_extensions ''./diagrams/arch.png'' [(''diagrams/arch'', X)] = Some X
   \<and> key_no_ext (lstrip ''./'' ''./diagrams/arch.png'') ''.png'' = ''diagrams/arch''"
    by (simp add: resolve_defs)
  have key: "ext \<in> set extension_preference \<longrightarrow>
        key_no_ext clean ext =
          (if endswith clean ext then take (length clean - length ext) clean else clean)"
    using key_no_ext_preference [of ext clean] by blast
  have res: "stage_exact r idx = None \<and> stage_clean r idx = None \<longrightarrow>
        resolve_image r idx =
          (case stage_extensions r idx of Some p \<Rightarrow> Some p | None \<Rightarrow> stage_basename r idx)"
    by (simp add: resolve_image_def)
  have pref: "extension_preference = [''.png'', ''.pdf'', ''.jpg'', ''.jpeg'', ''.eps'', ''.svg'']"
    by (rule extension_preference_def)
  have de: "drop_ext clean ext =
        (if endswith clean ext then take (length clean - length ext) clean else clean)"
    by (rule drop_ext_def)
  show ?thesis
    by (intro conjI)
       (fact ex [THEN conjunct1] ex [THEN conjunct2, THEN conjunct1]
          ex [THEN conjunct2, THEN conjunct2, THEN conjunct1]
          ex [THEN conjunct2, THEN conjunct2, THEN conjunct2, THEN conjunct1]
          ex [THEN conjunct2, THEN conjunct2, THEN conjunct2, THEN conjunct2]
          key pref de res stage_extensions_find stage_extensions_None)+
qed

theorem resolve_image_stage3_witness:
  "''.jpg'' \<in> set extension_preference
   \<and> endswith ''plots/loss.jpg'' ''.jpg''
   \<and> key_no_ext ''plots/loss.jpg'' ''.jpg'' = ''plots/loss''
   \<and> ''.pdf'' \<in> set extension_preference
   \<and> \<not> endswith ''plots/loss.jpg'' ''.pdf''
   \<and> key_no_ext ''plots/loss.jpg'' ''.pdf'' = ''plots/loss.jpg''
   \<and> stage_exact ''./fig.pdf'' [(''fig'', ''/src/fig.pdf'')] = None
   \<and> stage_clean ''./fig.pdf'' [(''fig'', ''/src/fig.pdf'')] = None
   \<and> stage_extensions ''./fig.pdf'' [(''fig'', ''/src/fig.pdf'')] = Some ''/src/fig.pdf''
   \<and> resolve_image ''./fig.pdf'' [(''fig'', ''/src/fig.pdf'')] = Some ''/src/fig.pdf''"
proof -
  have e: "stage_exact ''./fig.pdf'' [(''fig'', ''/src/fig.pdf'')] = None"
    "stage_clean ''./fig.pdf'' [(''fig'', ''/src/fig.pdf'')] = None"
    by (simp_all add: stage_exact_def stage_clean_def lstrip_def)
  have m: "''.jpg'' \<in> set extension_preference" "''.pdf'' \<in> set extension_preference"
    by (simp_all add: extension_preference_def)
  have w: "endswith ''plots/loss.jpg'' ''.jpg''" "\<not> endswith ''plots/loss.jpg'' ''.pdf''"
    by (simp_all add: endswith_def)
  note t1 = resolve_image_stage3 [of "''X''" "''.jpg''" "''plots/loss.jpg''"
      "''./fig.pdf''" "[(''fig'', ''/src/fig.pdf'')]"]
  note t2 = resolve_image_stage3 [of "''X''" "''.pdf''" "''plots/loss.jpg''"
      "''./fig.pdf''" "[(''fig'', ''/src/fig.pdf'')]"]
  note key1 = t1 [THEN conjunct2, THEN conjunct2, THEN conjunct2, THEN conjunct2, THEN conjunct2,
      THEN conjunct1, rule_format, OF m(1)]
  note key2 = t2 [THEN conjunct2, THEN conjunct2, THEN conjunct2, THEN conjunct2, THEN conjunct2,
      THEN conjunct1, rule_format, OF m(2)]
  note loop = t1 [THEN conjunct2, THEN conjunct2, THEN conjunct2, THEN conjunct2, THEN conjunct2,
      THEN conjunct2, THEN conjunct2, THEN conjunct2, THEN conjunct1]
  note res = t1 [THEN conjunct2, THEN conjunct2, THEN conjunct2, THEN conjunct2, THEN conjunct2,
      THEN conjunct2, THEN conjunct2, THEN conjunct2, THEN conjunct2, THEN conjunct2, rule_format,
      OF conjI [OF e]]
  have k1: "key_no_ext ''plots/loss.jpg'' ''.jpg'' = ''plots/loss''"
    unfolding key1 using w(1) by simp
  have k2: "key_no_ext ''plots/loss.jpg'' ''.pdf'' = ''plots/loss.jpg''"
    unfolding key2 using w(2) by simp
  have s3: "stage_extensions ''./fig.pdf'' [(''fig'', ''/src/fig.pdf'')] = Some ''/src/fig.pdf''"
    unfolding loop by (simp add: drop_ext_def lstrip_def endswith_def)
  have r: "resolve_image ''./fig.pdf'' [(''fig'', ''/src/fig.pdf'')] = Some ''/src/fig.pdf''"
    unfolding res s3 by simp
  show ?thesis
    by (intro conjI) (fact m w k1 k2 e s3 r)+
qed

lemma lstrip_run: "set pre \<subseteq> set chars \<Longrightarrow> lstrip chars (pre @ r) = lstrip chars r"
  by (induction pre) (auto simp: lstrip_def)

text \<open>
  C9: the qualifier strip removes the whole leading run of dots and slashes. A prefix
  made of \<open>.\<close> and \<open>/\<close> only does not change the stripped key; when the character after
  the run is neither, the stripped key is the reference without the run, so stage 2
  looks up the reference without its run and returns the file of that key when the
  reference with the run is no key itself, and the extension loop and the basename
  match work on the reference without the run; the three stages give the same result
  for both references, and so does \<open>resolve_image\<close> when neither is an exact key.
\<close>

theorem qualifier_strip_leading_run:
  "set pre \<subseteq> {CHR ''.'', CHR ''/''} \<Longrightarrow>
     lstrip ''./'' (pre @ r) = lstrip ''./'' r
   \<and> (c \<noteq> CHR ''.'' \<and> c \<noteq> CHR ''/'' \<longrightarrow> lstrip ''./'' (pre @ c # r) = c # r)
   \<and> stage_clean (pre @ r) idx = stage_clean r idx
   \<and> stage_extensions (pre @ r) idx = stage_extensions r idx
   \<and> stage_basename (pre @ r) idx = stage_basename r idx
   \<and> (stage_exact (pre @ r) idx = None \<and> stage_exact r idx = None \<longrightarrow>
        resolve_image (pre @ r) idx = resolve_image r idx)
   \<and> stage_clean ref idx = map_of idx (dropWhile (\<lambda>x. x = CHR ''.'' \<or> x = CHR ''/'') ref)
   \<and> (c \<noteq> CHR ''.'' \<and> c \<noteq> CHR ''/'' \<longrightarrow>
        stage_clean (pre @ c # r) idx = map_of idx (c # r)
        \<and> stage_extensions (pre @ c # r) idx = try_extensions (c # r) idx extension_preference
        \<and> stage_basename (pre @ c # r) idx =
            basename_scan
              (if CHR ''.'' \<in> set (basename (c # r)) then rsplit_dot_head (basename (c # r))
               else basename (c # r)) idx
        \<and> (stage_exact (pre @ c # r) idx = None \<and> map_of idx (c # r) = Some f \<longrightarrow>
             resolve_image (pre @ c # r) idx = Some f)
        \<and> (stage_exact (pre @ c # r) idx = None \<and> map_of idx (c # r) = None \<longrightarrow>
             resolve_image (pre @ c # r) idx =
               (case try_extensions (c # r) idx extension_preference of
                  Some p \<Rightarrow> Some p
                | None \<Rightarrow> stage_basename (c # r) idx)))"
proof -
  assume "set pre \<subseteq> {CHR ''.'', CHR ''/''}"
  then have run: "set pre \<subseteq> set ''./''" by auto
  have eq: "\<And>r. lstrip ''./'' (pre @ r) = lstrip ''./'' r"
    using lstrip_run [OF run] .
  have c: "c \<noteq> CHR ''.'' \<and> c \<noteq> CHR ''/'' \<longrightarrow> lstrip ''./'' (pre @ c # r) = c # r"
    using eq [of "c # r"] by (simp add: lstrip_def)
  have s2: "stage_clean (pre @ r) idx = stage_clean r idx"
    by (simp add: stage_clean_def eq)
  have s3: "stage_extensions (pre @ r) idx = stage_extensions r idx"
    by (simp add: stage_extensions_def eq)
  have s4: "stage_basename (pre @ r) idx = stage_basename r idx"
    by (simp add: stage_basename_def eq)
  have all: "stage_exact (pre @ r) idx = None \<and> stage_exact r idx = None \<longrightarrow>
        resolve_image (pre @ r) idx = resolve_image r idx"
    unfolding resolve_image_def s2 s3 s4 by simp
  have "(\<lambda>x. x \<in> set ''./'') = (\<lambda>x. x = CHR ''.'' \<or> x = CHR ''/'')"
    by auto
  then have d: "stage_clean ref idx = map_of idx (dropWhile (\<lambda>x. x = CHR ''.'' \<or> x = CHR ''/'') ref)"
    by (simp add: stage_clean_def lstrip_def)
  have direct: "stage_clean (pre @ c # r) idx = map_of idx (c # r)
        \<and> stage_extensions (pre @ c # r) idx = try_extensions (c # r) idx extension_preference
        \<and> stage_basename (pre @ c # r) idx =
            basename_scan
              (if CHR ''.'' \<in> set (basename (c # r)) then rsplit_dot_head (basename (c # r))
               else basename (c # r)) idx
        \<and> (stage_exact (pre @ c # r) idx = None \<and> map_of idx (c # r) = Some f \<longrightarrow>
             resolve_image (pre @ c # r) idx = Some f)
        \<and> (stage_exact (pre @ c # r) idx = None \<and> map_of idx (c # r) = None \<longrightarrow>
             resolve_image (pre @ c # r) idx =
               (case try_extensions (c # r) idx extension_preference of
                  Some p \<Rightarrow> Some p
                | None \<Rightarrow> stage_basename (c # r) idx))"
    if "c \<noteq> CHR ''.'' \<and> c \<noteq> CHR ''/''"
  proof -
    have k: "lstrip ''./'' (pre @ c # r) = c # r" "lstrip ''./'' (c # r) = c # r"
      using c that by (simp_all add: lstrip_def)
    have 1: "stage_clean (pre @ c # r) idx = map_of idx (c # r)"
      by (simp only: stage_clean_def k)
    have 2: "stage_extensions (pre @ c # r) idx = try_extensions (c # r) idx extension_preference"
      by (simp only: stage_extensions_def k)
    have 3: "stage_basename (pre @ c # r) idx =
            basename_scan
              (if CHR ''.'' \<in> set (basename (c # r)) then rsplit_dot_head (basename (c # r))
               else basename (c # r)) idx"
      "stage_basename (pre @ c # r) idx = stage_basename (c # r) idx"
      by (simp_all only: stage_basename_def k Let_def)
    have 4: "resolve_image (pre @ c # r) idx = Some f"
      if "stage_exact (pre @ c # r) idx = None \<and> map_of idx (c # r) = Some f"
      using that unfolding resolve_image_def 1 by simp
    have 5: "resolve_image (pre @ c # r) idx =
               (case try_extensions (c # r) idx extension_preference of
                  Some p \<Rightarrow> Some p
                | None \<Rightarrow> stage_basename (c # r) idx)"
      if "stage_exact (pre @ c # r) idx = None \<and> map_of idx (c # r) = None"
      using that unfolding resolve_image_def 1 2 3(2) by simp
    show ?thesis using 1 2 3(1) 4 5 by blast
  qed
  show ?thesis
    using eq [of r] c s2 s3 s4 all d direct by blast
qed

theorem qualifier_strip_leading_run_witness:
  "set ''..//'' \<subseteq> {CHR ''.'', CHR ''/''}
   \<and> lstrip ''./'' ''..//fig'' = ''fig''
   \<and> lstrip ''./'' ''./fig'' = ''fig''
   \<and> lstrip ''./'' ''fig'' = ''fig''
   \<and> lstrip ''./'' ''.hidden/fig'' = ''hidden/fig''
   \<and> resolve_image ''..//fig'' [(''fig'', ''/src/fig.png'')] = Some ''/src/fig.png''
   \<and> stage_exact ''./a.png'' [(''a'', ''/src/a.png''), (''a.png'', ''/src/a.png.jpg'')] = None
   \<and> map_of [(''a'', ''/src/a.png''), (''a.png'', ''/src/a.png.jpg'')] ''a.png''
        = Some ''/src/a.png.jpg''
   \<and> resolve_image ''./a.png'' [(''a'', ''/src/a.png''), (''a.png'', ''/src/a.png.jpg'')]
        = Some ''/src/a.png.jpg''"
proof -
  have run: "set ''..//'' \<subseteq> {CHR ''.'', CHR ''/''}" "set ''./'' \<subseteq> {CHR ''.'', CHR ''/''}"
    "set ''.'' \<subseteq> {CHR ''.'', CHR ''/''}"
    by simp_all
  note a = qualifier_strip_leading_run [OF run(1), of "''ig''" "CHR ''f''" "[(''fig'', ''/src/fig.png'')]"
      "''fig''" "''/src/fig.png''"]
  note b = qualifier_strip_leading_run [OF run(2), of "''ig''" "CHR ''f''" "[(''fig'', ''/src/fig.png'')]"
      "''fig''" "''/src/fig.png''"]
  note h = qualifier_strip_leading_run [OF run(3), of "''idden/fig''" "CHR ''h''" "[]" "[]" "[]"]
  note m = qualifier_strip_leading_run [OF run(2), of "''.png''" "CHR ''a''"
      "[(''a'', ''/src/a.png''), (''a.png'', ''/src/a.png.jpg'')]" "''a.png''" "''/src/a.png.jpg''"]
  have f: "lstrip ''./'' ''fig'' = ''fig''"
    by (simp add: lstrip_def)
  have e1: "stage_exact ''..//fig'' [(''fig'', ''/src/fig.png'')] = None"
    and e2: "stage_exact ''./a.png'' [(''a'', ''/src/a.png''), (''a.png'', ''/src/a.png.jpg'')] = None"
    by (simp_all add: stage_exact_def)
  have r1: "resolve_image ''..//fig'' [(''fig'', ''/src/fig.png'')] = Some ''/src/fig.png''"
    using a e1 by simp
  have r2: "resolve_image ''./a.png'' [(''a'', ''/src/a.png''), (''a.png'', ''/src/a.png.jpg'')]
      = Some ''/src/a.png.jpg''"
    using m e2 by simp
  show ?thesis
    using a b h f e2 r1 r2 by simp
qed

section \<open>Properties of the figure parser\<close>

lemma figures_loop_eq:
  "figures_loop n ms acc =
     acc @ map (\<lambda>(i, m). figure_of (Suc i) (m_group1 m)) (enumerate n ms)"
  by (induction ms arbitrary: n acc) (simp_all add: Let_def figure_of_def)

lemma parse_figures_eq:
  "parse_figures_from_tex t =
     map (\<lambda>(i, m). figure_of (Suc i) (m_group1 m)) (enumerate 0 (finditer fig_pattern t))"
  by (simp add: parse_figures_from_tex_def figures_loop_eq)

lemma parse_figures_numbers:
  "map number (parse_figures_from_tex t) = [1 ..< Suc (length (finditer fig_pattern t))]"
proof -
  have "map number (parse_figures_from_tex t) =
        map (\<lambda>x. Suc (fst x)) (enumerate 0 (finditer fig_pattern t))"
    by (simp add: parse_figures_eq figure_of_def case_prod_beta comp_def)
  also have "\<dots> = map Suc (map fst (enumerate 0 (finditer fig_pattern t)))"
    by (simp only: map_map comp_def)
  also have "\<dots> = map Suc [0 ..< length (finditer fig_pattern t)]"
    by (simp only: map_fst_enumerate add_0)
  also have "\<dots> = [1 ..< Suc (length (finditer fig_pattern t))]"
    by (simp only: map_Suc_upt One_nat_def)
  finally show ?thesis .
qed

lemma parse_figures_length:
  "length (parse_figures_from_tex t) = length (finditer fig_pattern t)"
  by (simp add: parse_figures_eq)

lemma finditer_from_sound:
  "x \<in> set (finditer_from m pos s) \<Longrightarrow>
     \<exists>k<length s. m_start x = pos + k \<and> m (drop k s) = Some (m_end x - m_start x, m_group1 x)"
proof (induction m pos s rule: finditer_from.induct)
  case (1 m pos)
  then show ?case by simp
next
  case (2 m pos c cs)
  show ?case
  proof (cases "m (c # cs)")
    case None
    with 2 obtain k where "k < length cs" "m_start x = Suc pos + k"
      "m (drop k cs) = Some (m_end x - m_start x, m_group1 x)"
      by auto
    then show ?thesis by (intro exI [of _ "Suc k"]) simp
  next
    case (Some r)
    obtain len g where r: "r = (len, g)" by (cases r)
    from "2.prems" Some r consider
      "x = \<lparr>m_start = pos, m_end = pos + len, m_group1 = g\<rparr>"
      | "x \<in> set (finditer_from m (pos + max 1 len) (drop (max 1 len) (c # cs)))"
      by auto
    then show ?thesis
    proof cases
      case 1
      then show ?thesis using Some r by (intro exI [of _ 0]) simp
    next
      case 2
      from "2.IH"(2) [OF Some r [symmetric] 2]
      obtain k where k: "k < length (drop (max 1 len) (c # cs))"
        "m_start x = pos + max 1 len + k"
        "m (drop k (drop (max 1 len) (c # cs))) = Some (m_end x - m_start x, m_group1 x)"
        by auto
      show ?thesis
        using k by (intro exI [of _ "max 1 len + k"]) (auto simp: add.commute)
    qed
  qed
qed

lemma finditer_from_sorted:
  "sorted_wrt (<) (map m_start (finditer_from m pos s))"
proof (induction m pos s rule: finditer_from.induct)
  case (1 m pos)
  then show ?case by simp
next
  case (2 m pos c cs)
  show ?case
  proof (cases "m (c # cs)")
    case None
    with 2 show ?thesis by simp
  next
    case (Some r)
    obtain len g where r: "r = (len, g)" by (cases r)
    have later: "pos < m_start x"
      if "x \<in> set (finditer_from m (pos + max 1 len) (drop (max 1 len) (c # cs)))" for x
      using finditer_from_sound [OF that] by auto
    show ?thesis
      using Some r "2.IH"(2) [OF Some r [symmetric]] later by auto
  qed
qed

lemma parse_figures_captions:
  "map caption (map (\<lambda>(i, m). figure_of (Suc i) (m_group1 m)) (enumerate n ms)) =
     map (\<lambda>m. figure_caption (m_group1 m)) ms"
  by (induction ms arbitrary: n) (simp_all add: figure_of_def)


text \<open>
  C2: figure numbers follow the order of the figure environments in the text, from 1 on
  and without gaps. The records are built from the matches of the figure pattern in
  order, the match at index \<open>i\<close> giving the record with number \<open>i + 1\<close>, whatever
  its body holds; the matches start at strictly increasing positions, each at a place
  where the figure pattern matches; so the record at index \<open>n\<close> has number \<open>n + 1\<close>.
\<close>

theorem figure_numbers_in_order:
  "map number (parse_figures_from_tex t) = [1 ..< Suc (length (finditer fig_pattern t))]
   \<and> parse_figures_from_tex t =
       map (\<lambda>(i, m). figure_of (Suc i) (m_group1 m)) (enumerate 0 (finditer fig_pattern t))
   \<and> sorted_wrt (<) (map m_start (finditer fig_pattern t))
   \<and> (\<forall>x \<in> set (finditer fig_pattern t).
        fig_pattern (drop (m_start x) t) = Some (m_end x - m_start x, m_group1 x))
   \<and> (n < length (parse_figures_from_tex t) \<longrightarrow> number (parse_figures_from_tex t ! n) = Suc n)"
proof -
  have nth: "number (parse_figures_from_tex t ! n) = Suc n"
    if "n < length (parse_figures_from_tex t)"
  proof -
    have "number (parse_figures_from_tex t ! n) = map number (parse_figures_from_tex t) ! n"
      using that by simp
    also have "\<dots> = Suc n"
      using that unfolding parse_figures_numbers parse_figures_length by (simp del: upt_Suc)
    finally show ?thesis .
  qed
  have "fig_pattern (drop (m_start x) t) = Some (m_end x - m_start x, m_group1 x)"
    if "x \<in> set (finditer fig_pattern t)" for x
    using finditer_from_sound [of x fig_pattern 0 t] that by (auto simp: finditer_def)
  then show ?thesis
    using parse_figures_numbers parse_figures_eq nth finditer_from_sorted [of fig_pattern 0 t]
    by (simp add: finditer_def)
qed

theorem figure_numbers_in_order_witness:
  "map number (parse_figures_from_tex
      (bslash # ''begin{figure}'' @ bslash # ''includegraphics{a}'' @ bslash # ''includegraphics{b}''
        @ bslash # ''caption{One}'' @ bslash # ''end{figure}'' @ ''text''
        @ bslash # ''begin{figure*}'' @ bslash # ''end{figure*}''
        @ bslash # ''begin{figure}'' @ bslash # ''caption{x}'' @ bslash # ''end{figure}''))
     = [1, 2, 3]
   \<and> map image_paths (parse_figures_from_tex
      (bslash # ''begin{figure}'' @ bslash # ''includegraphics{a}'' @ bslash # ''includegraphics{b}''
        @ bslash # ''caption{One}'' @ bslash # ''end{figure}'' @ ''text''
        @ bslash # ''begin{figure*}'' @ bslash # ''end{figure*}''
        @ bslash # ''begin{figure}'' @ bslash # ''caption{x}'' @ bslash # ''end{figure}''))
     = [[''a'', ''b''], [], []]
   \<and> map m_start (finditer fig_pattern
      (bslash # ''begin{figure}'' @ bslash # ''includegraphics{a}'' @ bslash # ''includegraphics{b}''
        @ bslash # ''caption{One}'' @ bslash # ''end{figure}'' @ ''text''
        @ bslash # ''begin{figure*}'' @ bslash # ''end{figure*}''
        @ bslash # ''begin{figure}'' @ bslash # ''caption{x}'' @ bslash # ''end{figure}''))
     = [0, 81, 109]"
proof -
  define t where "t = bslash # ''begin{figure}'' @ bslash # ''includegraphics{a}''
        @ bslash # ''includegraphics{b}''
        @ bslash # ''caption{One}'' @ bslash # ''end{figure}'' @ ''text''
        @ bslash # ''begin{figure*}'' @ bslash # ''end{figure*}''
        @ bslash # ''begin{figure}'' @ bslash # ''caption{x}'' @ bslash # ''end{figure}''"
  have f: "finditer fig_pattern t =
      [\<lparr>m_start = 0, m_end = 77,
         m_group1 = bslash # ''includegraphics{a}'' @ bslash # ''includegraphics{b}''
            @ bslash # ''caption{One}''\<rparr>,
       \<lparr>m_start = 81, m_end = 109, m_group1 = []\<rparr>,
       \<lparr>m_start = 109, m_end = 146, m_group1 = bslash # ''caption{x}''\<rparr>]"
    unfolding t_def by code_simp
  have i1: "findall img_pattern (bslash # ''includegraphics{a}'' @ bslash # ''includegraphics{b}''
            @ bslash # ''caption{One}'') = [''a'', ''b'']"
    by code_simp
  have i2: "findall img_pattern [] = []"
    by code_simp
  have i3: "findall img_pattern (bslash # ''caption{x}'') = []"
    by code_simp
  have p: "parse_figures_from_tex t =
       map (\<lambda>(i, m). figure_of (Suc i) (m_group1 m)) (enumerate 0 (finditer fig_pattern t))"
    and n: "map number (parse_figures_from_tex t) = [1 ..< Suc (length (finditer fig_pattern t))]"
    using figure_numbers_in_order [of t 2] by blast+
  have "map number (parse_figures_from_tex t) = [1, 2, 3]
    \<and> map image_paths (parse_figures_from_tex t) = [[''a'', ''b''], [], []]
    \<and> map m_start (finditer fig_pattern t) = [0, 81, 109]"
    using i1 i2 i3 unfolding n p f
    by (simp add: figure_of_def enumerate_eq_zip upt_conv_Cons)
  then show ?thesis
    unfolding t_def .
qed

text \<open>
  C5: the caption of a figure is its cleaned caption cut to 117 characters and followed
  by three dots exactly when the cleaned caption is longer than 120 characters; a
  cleaned caption of at most 120 characters, so one of exactly 120, is kept as it is.
  The caption of every parsed record is the caption of its body.
\<close>

theorem caption_truncation:
  "(120 < length (cleaned_caption body) \<longrightarrow>
      figure_caption body = take 117 (cleaned_caption body) @ ''...''
      \<and> length (take 117 (cleaned_caption body)) = 117
      \<and> length (figure_caption body) = 120)
   \<and> (length (cleaned_caption body) \<le> 120 \<longrightarrow> figure_caption body = cleaned_caption body)
   \<and> (figure_caption body \<noteq> cleaned_caption body \<longleftrightarrow> 120 < length (cleaned_caption body))
   \<and> length (figure_caption body) \<le> 120
   \<and> map caption (parse_figures_from_tex t) =
       map (\<lambda>m. figure_caption (m_group1 m)) (finditer fig_pattern t)"
proof -
  have "map caption (parse_figures_from_tex t) =
       map (\<lambda>m. figure_caption (m_group1 m)) (finditer fig_pattern t)"
    unfolding parse_figures_eq by (rule parse_figures_captions)
  moreover have "figure_caption body \<noteq> cleaned_caption body"
    if "120 < length (cleaned_caption body)"
  proof
    assume "figure_caption body = cleaned_caption body"
    then have "length (figure_caption body) = length (cleaned_caption body)" by simp
    then show False using that by (simp add: figure_caption_def Let_def)
  qed
  ultimately show ?thesis
    by (auto simp: figure_caption_def Let_def)
qed

theorem caption_truncation_witness:
  "120 < length (cleaned_caption (bslash # ''caption{'' @ replicate 121 (CHR ''a'') @ ''}''))
   \<and> figure_caption (bslash # ''caption{'' @ replicate 121 (CHR ''a'') @ ''}'')
       = replicate 117 (CHR ''a'') @ ''...''
   \<and> length (cleaned_caption (bslash # ''caption{'' @ replicate 120 (CHR ''a'') @ ''}'')) = 120
   \<and> figure_caption (bslash # ''caption{'' @ replicate 120 (CHR ''a'') @ ''}'')
       = replicate 120 (CHR ''a'')"
proof -
  have c121: "cleaned_caption (bslash # ''caption{'' @ replicate 121 (CHR ''a'') @ ''}'')
      = replicate 121 (CHR ''a'')"
    by code_simp
  have c120: "cleaned_caption (bslash # ''caption{'' @ replicate 120 (CHR ''a'') @ ''}'')
      = replicate 120 (CHR ''a'')"
    by code_simp
  show ?thesis
    using caption_truncation [of "bslash # ''caption{'' @ replicate 121 (CHR ''a'') @ ''}''" "[]"]
      caption_truncation [of "bslash # ''caption{'' @ replicate 120 (CHR ''a'') @ ''}''" "[]"]
    unfolding c121 c120
    by simp
qed

section \<open>Properties of the extraction pipeline\<close>

lemma save_image_saved:
  "saved_figures (save_image env fig resolved ext st) =
     saved_figures st @ [\<lparr>s_number = number fig, s_caption = caption fig,
        filename = fst (if ext = ''.pdf'' then
               (if convert_pdf_to_png env resolved
                     (path_join (out_dir env) (''figure'' @ str_nat (number fig) @ ''.png''))
                then (''figure'' @ str_nat (number fig) @ ''.png'', Bitmap_of resolved)
                else (''figure'' @ str_nat (number fig) @ ''.pdf'', Copy_of resolved))
             else (''figure'' @ str_nat (number fig) @ ext, Copy_of resolved)),
        saved_path = path_join (out_dir env) (fst (if ext = ''.pdf'' then
               (if convert_pdf_to_png env resolved
                     (path_join (out_dir env) (''figure'' @ str_nat (number fig) @ ''.png''))
                then (''figure'' @ str_nat (number fig) @ ''.png'', Bitmap_of resolved)
                else (''figure'' @ str_nat (number fig) @ ''.pdf'', Copy_of resolved))
             else (''figure'' @ str_nat (number fig) @ ext, Copy_of resolved)))\<rparr>]"
  by (simp add: save_image_def Let_def split: prod.splits)

lemma save_image_numbers:
  "map s_number (saved_figures (save_image env fig resolved ext st)) =
     map s_number (saved_figures st) @ [number fig]"
  by (simp add: save_image_saved)

lemma save_image_written_length:
  "length (written (save_image env fig resolved ext st)) = Suc (length (written st))"
  by (simp add: save_image_def Let_def split: prod.splits)

lemma refs_loop_numbers:
  "map s_number (saved_figures (refs_loop env fig refs st)) = map s_number (saved_figures st)
   \<or> map s_number (saved_figures (refs_loop env fig refs st)) =
        map s_number (saved_figures st) @ [number fig]"
  by (induction refs) (auto simp: save_image_numbers Let_def split: option.splits)

lemma refs_loop_length:
  "length (saved_figures st) \<le> length (saved_figures (refs_loop env fig refs st))
   \<and> length (saved_figures (refs_loop env fig refs st)) \<le> Suc (length (saved_figures st))"
  using refs_loop_numbers [of env fig refs st]
  by (metis length_map length_append_singleton le_refl le_SucI)

lemma save_loop_cap:
  "length (saved_figures (save_loop env figs st)) \<le> max MAX_FIGURES (length (saved_figures st))"
proof (induction figs arbitrary: st)
  case Nil
  then show ?case by simp
next
  case (Cons fig figs)
  show ?case
  proof (cases "length (saved_figures st) \<ge> MAX_FIGURES")
    case True
    then show ?thesis by simp
  next
    case False
    have "length (saved_figures (save_loop env figs (refs_loop env fig (image_paths fig) st)))
        \<le> max MAX_FIGURES (length (saved_figures (refs_loop env fig (image_paths fig) st)))"
      by (rule Cons.IH)
    moreover have "length (saved_figures (refs_loop env fig (image_paths fig) st)) \<le> MAX_FIGURES"
      using refs_loop_length [of st env fig "image_paths fig"] False by simp
    ultimately show ?thesis using False by simp
  qed
qed

lemma save_loop_count:
  "length (saved_figures (save_loop env figs st)) \<le> length (saved_figures st) + length figs"
proof (induction figs arbitrary: st)
  case Nil
  then show ?case by simp
next
  case (Cons fig figs)
  have "length (saved_figures (save_loop env figs (refs_loop env fig (image_paths fig) st)))
      \<le> length (saved_figures (refs_loop env fig (image_paths fig) st)) + length figs"
    by (rule Cons.IH)
  then show ?case
    using refs_loop_length [of st env fig "image_paths fig"] by simp
qed

lemma refs_loop_first_savable:
  "first_ref_savable env fig \<Longrightarrow>
     map s_number (saved_figures (refs_loop env fig (image_paths fig) st)) =
       map s_number (saved_figures st) @ [number fig]
     \<and> length (written (refs_loop env fig (image_paths fig) st)) = Suc (length (written st))"
  by (cases "image_paths fig")
     (auto simp: first_ref_savable_def save_image_numbers save_image_written_length Let_def
           split: option.splits)

lemma save_loop_all_savable:
  "\<forall>fig \<in> set figs. first_ref_savable env fig \<Longrightarrow>
     map s_number (saved_figures (save_loop env figs st)) =
       map s_number (saved_figures st)
         @ take (MAX_FIGURES - length (saved_figures st)) (map number figs)
     \<and> length (written (save_loop env figs st)) =
         length (written st) + min (MAX_FIGURES - length (saved_figures st)) (length figs)"
proof (induction figs arbitrary: st)
  case Nil
  then show ?case by simp
next
  case (Cons fig figs)
  show ?case
  proof (cases "length (saved_figures st) \<ge> MAX_FIGURES")
    case True
    then show ?thesis by simp
  next
    case False
    let ?st = "refs_loop env fig (image_paths fig) st"
    have step: "map s_number (saved_figures ?st) = map s_number (saved_figures st) @ [number fig]"
      "length (written ?st) = Suc (length (written st))"
      using refs_loop_first_savable [of env fig st] Cons.prems by simp_all
    from step(1) have len: "length (saved_figures ?st) = Suc (length (saved_figures st))"
      by (metis length_map length_append_singleton)
    have ih: "map s_number (saved_figures (save_loop env figs ?st)) =
       map s_number (saved_figures ?st)
         @ take (MAX_FIGURES - length (saved_figures ?st)) (map number figs)
     \<and> length (written (save_loop env figs ?st)) =
         length (written ?st) + min (MAX_FIGURES - length (saved_figures ?st)) (length figs)"
      using Cons.IH [of ?st] Cons.prems by simp
    obtain k where k: "MAX_FIGURES - length (saved_figures st) = Suc k"
      using False by (metis Suc_diff_Suc not_le)
    then have k': "MAX_FIGURES - length (saved_figures ?st) = k"
      using len by simp
    show ?thesis
      using False ih step k k' by simp
  qed
qed

text \<open>
  C3: a run saves at most \<open>MAX_FIGURES\<close> = 10 figures. When the text has 15 figure
  environments and the first reference of every figure resolves to a file that is
  saved, exactly 10 figures are saved, those numbered 1 to 10, with one file written for
  each and none for a later environment, while the parser still returns the 15 records.
\<close>

theorem extraction_capped:
  "length (saved_figures (extract_from_text env t)) \<le> MAX_FIGURES
   \<and> MAX_FIGURES = 10
   \<and> (length (parse_figures_from_tex t) = 15
        \<and> list_all (first_ref_savable env) (parse_figures_from_tex t) \<longrightarrow>
          length (saved_figures (extract_from_text env t)) = 10
          \<and> map s_number (saved_figures (extract_from_text env t)) = [1 ..< 11]
          \<and> length (written (extract_from_text env t)) = 10)"
proof -
  let ?init = "\<lparr>saved_figures = [], written = []\<rparr>"
  have cap: "length (saved_figures (extract_from_text env t)) \<le> MAX_FIGURES"
    using save_loop_cap [of env "parse_figures_from_tex t" ?init]
    by (simp add: extract_from_text_def)
  have full: "length (saved_figures (extract_from_text env t)) = 10
          \<and> map s_number (saved_figures (extract_from_text env t)) = [1 ..< 11]
          \<and> length (written (extract_from_text env t)) = 10"
    if len: "length (parse_figures_from_tex t) = 15"
      and ok: "list_all (first_ref_savable env) (parse_figures_from_tex t)"
  proof -
    from ok have "\<forall>fig \<in> set (parse_figures_from_tex t). first_ref_savable env fig"
      by (simp add: list_all_iff)
    from save_loop_all_savable [OF this, of ?init]
    have nums: "map s_number (saved_figures (extract_from_text env t)) =
        take 10 (map number (parse_figures_from_tex t))"
      and wr: "length (written (extract_from_text env t)) = 10"
      using len by (simp_all add: extract_from_text_def MAX_FIGURES_def)
    have "length (finditer fig_pattern t) = 15"
      using len by (simp add: parse_figures_length)
    then have "map number (parse_figures_from_tex t) = [1 ..< 16]"
      by (simp add: parse_figures_numbers)
    then have n10: "map s_number (saved_figures (extract_from_text env t)) = [1 ..< 11]"
      using nums by (simp add: take_upt)
    have "length (saved_figures (extract_from_text env t)) =
        length (map s_number (saved_figures (extract_from_text env t)))"
      by simp
    also have "\<dots> = length [1 ..< (11::nat)]"
      by (simp only: n10)
    also have "\<dots> = 10"
      by simp
    finally show ?thesis using n10 wr by simp
  qed
  show ?thesis using cap full by (simp add: MAX_FIGURES_def)
qed

theorem extraction_capped_witness:
  "length (parse_figures_from_tex
      (concat (replicate 15
         (bslash # ''begin{figure}'' @ bslash # ''includegraphics{a}'' @ bslash # ''end{figure}'')))) = 15
   \<and> list_all
        (first_ref_savable
           \<lparr>images = [(''a'', ''/src/a.png'')], pdftoppm = (\<lambda>p q. FileNotFoundError),
            out_dir = ''/out''\<rparr>)
        (parse_figures_from_tex
          (concat (replicate 15
            (bslash # ''begin{figure}'' @ bslash # ''includegraphics{a}'' @ bslash # ''end{figure}''))))
   \<and> map s_number
        (saved_figures
          (extract_from_text
             \<lparr>images = [(''a'', ''/src/a.png'')], pdftoppm = (\<lambda>p q. FileNotFoundError),
              out_dir = ''/out''\<rparr>
             (concat (replicate 15
               (bslash # ''begin{figure}'' @ bslash # ''includegraphics{a}'' @ bslash # ''end{figure}'')))))
       = [1, 2, 3, 4, 5, 6, 7, 8, 9, 10]"
proof -
  let ?t = "concat (replicate 15
      (bslash # ''begin{figure}'' @ bslash # ''includegraphics{a}'' @ bslash # ''end{figure}''))"
  let ?env = "\<lparr>images = [(''a'', ''/src/a.png'')], pdftoppm = (\<lambda>p q. FileNotFoundError),
      out_dir = ''/out''\<rparr>"
  have p: "parse_figures_from_tex ?t =
      map (\<lambda>n. \<lparr>number = n, image_paths = [''a''], caption = []\<rparr>) [1 ..< 16]"
    by code_simp
  have len: "length (parse_figures_from_tex ?t) = 15"
    unfolding p by simp
  have ok: "list_all (first_ref_savable ?env) (parse_figures_from_tex ?t)"
    unfolding p
    by (simp add: list_all_iff first_ref_savable_def resolve_image_def stage_exact_def
        path_suffix_def basename_def rsplit_dot_head_def lower_def lower_char_def)
  have upt: "[1 ..< 11] = [1, 2, 3, 4, 5, 6, 7, 8, 9, 10::nat]"
    by code_simp
  show ?thesis
    using extraction_capped [of ?env ?t] len ok upt by simp
qed

text \<open>
  C4: a reference that resolves to a file with the suffix \<open>.eps\<close> (in any case) is
  skipped and the loop goes on with the next reference of the same figure; a figure
  whose only reference is such a file saves nothing; and a run never saves more figures
  than the parser returned records.
\<close>

theorem eps_reference_skipped:
  "(resolve_image img_ref (images env) = Some resolved \<and> lower (path_suffix resolved) = ''.eps'' \<longrightarrow>
      refs_loop env fig (img_ref # rest) st = refs_loop env fig rest st
      \<and> (image_paths fig = [img_ref] \<longrightarrow>
           save_loop env [fig] \<lparr>saved_figures = [], written = []\<rparr>
             = \<lparr>saved_figures = [], written = []\<rparr>))
   \<and> length (saved_figures (extract_from_text env t)) \<le> length (parse_figures_from_tex t)"
proof -
  have "length (saved_figures (extract_from_text env t)) \<le> length (parse_figures_from_tex t)"
    using save_loop_count [of env "parse_figures_from_tex t" "\<lparr>saved_figures = [], written = []\<rparr>"]
    by (simp add: extract_from_text_def)
  then show ?thesis
    by (simp add: MAX_FIGURES_def)
qed

theorem eps_reference_skipped_witness:
  "resolve_image ''plot'' [(''plot'', ''/src/plot.EPS''), (''alt'', ''/src/alt.png'')]
     = Some ''/src/plot.EPS''
   \<and> lower (path_suffix ''/src/plot.EPS'') = ''.eps''
   \<and> refs_loop
        \<lparr>images = [(''plot'', ''/src/plot.EPS''), (''alt'', ''/src/alt.png'')],
         pdftoppm = (\<lambda>p q. FileNotFoundError), out_dir = ''/out''\<rparr>
        \<lparr>number = 1, image_paths = [''plot'', ''alt''], caption = ''c''\<rparr>
        [''plot'', ''alt''] \<lparr>saved_figures = [], written = []\<rparr>
      = \<lparr>saved_figures = [\<lparr>s_number = 1, s_caption = ''c'', filename = ''figure1.png'',
                              saved_path = ''/out/figure1.png''\<rparr>],
         written = [(''/out/figure1.png'', Copy_of ''/src/alt.png'')]\<rparr>
   \<and> save_loop
        \<lparr>images = [(''plot'', ''/src/plot.EPS''), (''alt'', ''/src/alt.png'')],
         pdftoppm = (\<lambda>p q. FileNotFoundError), out_dir = ''/out''\<rparr>
        [\<lparr>number = 1, image_paths = [''plot''], caption = ''c''\<rparr>]
        \<lparr>saved_figures = [], written = []\<rparr>
      = \<lparr>saved_figures = [], written = []\<rparr>"
proof -
  let ?env = "\<lparr>images = [(''plot'', ''/src/plot.EPS''), (''alt'', ''/src/alt.png'')],
         pdftoppm = (\<lambda>p q. FileNotFoundError), out_dir = ''/out''\<rparr>"
  have r: "resolve_image ''plot'' (images ?env) = Some ''/src/plot.EPS''"
    by (simp add: resolve_image_def stage_exact_def)
  have e: "lower (path_suffix ''/src/plot.EPS'') = ''.eps''"
    by code_simp
  have alt: "refs_loop ?env \<lparr>number = 1, image_paths = [''plot'', ''alt''], caption = ''c''\<rparr>
        [''alt''] \<lparr>saved_figures = [], written = []\<rparr>
      = \<lparr>saved_figures = [\<lparr>s_number = 1, s_caption = ''c'', filename = ''figure1.png'',
                              saved_path = ''/out/figure1.png''\<rparr>],
         written = [(''/out/figure1.png'', Copy_of ''/src/alt.png'')]\<rparr>"
    by code_simp
  show ?thesis
    using eps_reference_skipped [of "''plot''" ?env "''/src/plot.EPS''"
        "\<lparr>number = 1, image_paths = [''plot'', ''alt''], caption = ''c''\<rparr>" "[''alt'']"
        "\<lparr>saved_figures = [], written = []\<rparr>" "[]"]
      eps_reference_skipped [of "''plot''" ?env "''/src/plot.EPS''"
        "\<lparr>number = 1, image_paths = [''plot''], caption = ''c''\<rparr>" "[]"
        "\<lparr>saved_figures = [], written = []\<rparr>" "[]"]
      r e alt
    by (simp del: refs_loop.simps save_loop.simps)
qed

text \<open>
  C8: when the rasterizer run fails (missing tool, non-zero exit or timeout) the
  conversion reports failure, and a figure whose reference resolves to a PDF file is then
  saved as \<open>figure<N>.pdf\<close>, \<open>N\<close> its number, the file being a copy of the original.
\<close>

theorem pdf_fallback_copy:
  "(run_failed (pdftoppm env pdf_path (without_suffix png_path)) \<longrightarrow>
      \<not> convert_pdf_to_png env pdf_path png_path)
   \<and> (resolve_image img_ref (images env) = Some resolved
       \<and> lower (path_suffix resolved) = ''.pdf''
       \<and> run_failed (pdftoppm env resolved
            (without_suffix (path_join (out_dir env) (''figure'' @ str_nat (number fig) @ ''.png''))))
       \<longrightarrow>
         refs_loop env fig (img_ref # rest) st =
           \<lparr>saved_figures = saved_figures st @
              [\<lparr>s_number = number fig, s_caption = caption fig,
                filename = ''figure'' @ str_nat (number fig) @ ''.pdf'',
                saved_path = path_join (out_dir env) (''figure'' @ str_nat (number fig) @ ''.pdf'')\<rparr>],
            written = written st @
              [(path_join (out_dir env) (''figure'' @ str_nat (number fig) @ ''.pdf''),
                Copy_of resolved)]\<rparr>)"
proof -
  have conv: "\<not> convert_pdf_to_png env pdf_path png_path"
    if "run_failed (pdftoppm env pdf_path (without_suffix png_path))" for pdf_path png_path
    using that by (auto simp: run_failed_def convert_pdf_to_png_def)
  show ?thesis
    using conv by (auto simp: save_image_def Let_def)
qed

theorem pdf_fallback_copy_witness:
  "resolve_image ''d'' [(''d'', ''/src/d.PDF'')] = Some ''/src/d.PDF''
   \<and> lower (path_suffix ''/src/d.PDF'') = ''.pdf''
   \<and> run_failed TimeoutExpired
   \<and> refs_loop
        \<lparr>images = [(''d'', ''/src/d.PDF'')], pdftoppm = (\<lambda>p q. TimeoutExpired), out_dir = ''/out''\<rparr>
        \<lparr>number = 12, image_paths = [''d''], caption = ''c''\<rparr> [''d'']
        \<lparr>saved_figures = [], written = []\<rparr>
      = \<lparr>saved_figures = [\<lparr>s_number = 12, s_caption = ''c'', filename = ''figure12.pdf'',
                              saved_path = ''/out/figure12.pdf''\<rparr>],
         written = [(''/out/figure12.pdf'', Copy_of ''/src/d.PDF'')]\<rparr>"
proof -
  let ?env = "\<lparr>images = [(''d'', ''/src/d.PDF'')], pdftoppm = (\<lambda>p q. TimeoutExpired),
      out_dir = ''/out''\<rparr>"
  have r: "resolve_image ''d'' (images ?env) = Some ''/src/d.PDF''"
    by (simp add: resolve_image_def stage_exact_def)
  have e: "lower (path_suffix ''/src/d.PDF'') = ''.pdf''"
    by code_simp
  have f: "run_failed TimeoutExpired"
    by (simp add: run_failed_def)
  have s: "str_nat 12 = ''12''"
    by code_simp
  show ?thesis
    using pdf_fallback_copy [of ?env "[]" "[]" "''d''" "''/src/d.PDF''"
        "\<lparr>number = 12, image_paths = [''d''], caption = ''c''\<rparr>" "[]"
        "\<lparr>saved_figures = [], written = []\<rparr>"] r e f s
    by (simp del: refs_loop.simps add: path_join_def)
qed

section \<open>Unterminated figure environments\<close>

lemma after_prefix_Some: "after_prefix p s = Some r \<longleftrightarrow> s = p @ r"
  unfolding after_prefix_def
  by (metis append_eq_conv_conj option.inject option.simps(3))

lemma after_prefix_long:
  "length p \<le> length u \<Longrightarrow> after_prefix p (u @ R) = map_option (\<lambda>r. r @ R) (after_prefix p u)"
  by (simp add: after_prefix_def)

lemma after_prefix_short:
  assumes "u \<noteq> []" "length u < length p" "c \<notin> set (tl p)"
  shows "after_prefix p (u @ c # w) = None"
proof (rule ccontr)
  assume "after_prefix p (u @ c # w) \<noteq> None"
  then obtain r where "u @ c # w = p @ r"
    by (auto simp: after_prefix_Some)
  then have "(u @ c # w) ! length u = (p @ r) ! length u" by simp
  then have "c = p ! length u" using assms(2) by (simp add: nth_append)
  moreover have "p ! length u \<in> set (tl p)"
    using assms(1,2) by (cases p; cases u) auto
  ultimately show False using assms(3) by simp
qed

lemma after_prefix_too_short: "length u < length p \<Longrightarrow> after_prefix p u = None"
  by (auto simp: after_prefix_def)

lemma star_close_append: "star_close (v @ bslash # w) = star_close v"
proof (cases v)
  case Nil
  then show ?thesis by (simp add: star_close_def lit_def)
next
  case (Cons c v')
  then show ?thesis by (cases v') (auto simp: star_close_def lit_def)
qed

lemma star_close_le: "star_close r = Some n \<Longrightarrow> 0 < n \<and> n \<le> length r"
  by (auto simp: star_close_def lit_def split: list.splits if_splits option.splits)

lemma fig_end_append: "fig_end (u @ bslash # CHR ''b'' # w) = fig_end u"
proof -
  consider "u = []" | "u \<noteq> []" "length u < 11" | "11 \<le> length u" by linarith
  then show ?thesis
  proof cases
    case 1
    then show ?thesis by (simp add: fig_end_def after_prefix_def)
  next
    case 2
    then have "after_prefix (bslash # ''end{figure'') (u @ bslash # CHR ''b'' # w) = None"
      by (intro after_prefix_short) auto
    moreover have "after_prefix (bslash # ''end{figure'') u = None"
      using 2 by (intro after_prefix_too_short) simp
    ultimately show ?thesis by (simp add: fig_end_def)
  next
    case 3
    then show ?thesis
      unfolding fig_end_def
      by (subst after_prefix_long) (auto simp: star_close_append split: option.splits)
  qed
qed

lemma fig_end_Nil: "fig_end [] = None"
  by (simp add: fig_end_def after_prefix_def)

lemma lazy_end_has_fig_end: "lazy_dot True fig_end s \<noteq> None \<Longrightarrow> has_fig_end s"
  by (induction s) (auto simp: fig_end_Nil split: option.splits)

lemma has_fig_end_drop: "has_fig_end (drop k s) \<Longrightarrow> has_fig_end s"
proof (induction s arbitrary: k)
  case Nil
  then show ?case by simp
next
  case (Cons c s)
  then show ?case by (cases k) auto
qed

lemma lazy_end_append:
  assumes "\<not> has_fig_end (bslash # CHR ''b'' # w)"
  shows "lazy_dot True fig_end (s @ bslash # CHR ''b'' # w) = lazy_dot True fig_end s"
proof (induction s)
  case Nil
  have "lazy_dot True fig_end (bslash # CHR ''b'' # w) = None"
    using assms lazy_end_has_fig_end by blast
  then show ?case by (simp add: fig_end_Nil)
next
  case (Cons c s)
  have "fig_end (c # s @ bslash # CHR ''b'' # w) = fig_end (c # s)"
    using fig_end_append [of "c # s" w] by simp
  then show ?case using Cons by (simp split: option.splits)
qed

lemma fig_pattern_has_fig_end:
  assumes "fig_pattern s = Some x"
  shows "has_fig_end s"
proof -
  from assms obtain r n where r: "after_prefix (bslash # ''begin{figure'') s = Some r"
    and n: "star_close r = Some n" and l: "lazy_dot True fig_end (drop n r) \<noteq> None"
    by (auto simp: fig_pattern_def split: option.splits)
  from l have "has_fig_end (drop n r)" by (rule lazy_end_has_fig_end)
  then have "has_fig_end r" by (rule has_fig_end_drop)
  moreover have "r = drop 13 s" using r by (auto simp: after_prefix_Some)
  ultimately show ?thesis using has_fig_end_drop by blast
qed

lemma fig_pattern_no_end: "\<not> has_fig_end s \<Longrightarrow> fig_pattern s = None"
  by (metis fig_pattern_has_fig_end option.exhaust)

lemma fig_pattern_le:
  assumes "fig_pattern s = Some (len, g)"
  shows "0 < len \<and> len \<le> length s"
proof -
  from assms obtain r n body e where r: "after_prefix (bslash # ''begin{figure'') s = Some r"
    and n: "star_close r = Some n" and l: "lazy_dot True fig_end (drop n r) = Some (body, e)"
    and len: "len = 13 + n + length body + e"
    by (auto simp: fig_pattern_def split: option.splits)
  have lz: "lazy_dot True fig_end t = Some (b, e) \<Longrightarrow> fig_end (drop (length b) t) = Some e \<and> length b \<le> length t" for t b
    by (induction t arbitrary: b) (auto simp: fig_end_Nil split: option.splits)
  have fe: "fig_end t = Some e \<Longrightarrow> e \<le> length t" for t
    using star_close_le
    by (fastforce simp: fig_end_def after_prefix_Some split: option.splits)
  from lz [OF l] fe have "length body + e \<le> length (drop n r)"
    by (metis add.commute le_add_diff_inverse length_drop  nat_add_left_cancel_le)
  moreover have "n \<le> length r" using star_close_le [OF n] by simp
  moreover have "length s = 13 + length r" using r by (auto simp: after_prefix_Some)
  ultimately show ?thesis using len by simp
qed

lemma fig_pattern_append:
  assumes "\<not> has_fig_end (bslash # CHR ''b'' # w)"
  shows "fig_pattern (s @ bslash # CHR ''b'' # w) = fig_pattern s"
proof -
  let ?R = "bslash # CHR ''b'' # w"
  consider "s = []" | "s \<noteq> []" "length s < 13" | "13 \<le> length s" by linarith
  then show ?thesis
  proof cases
    case 1
    have "fig_pattern ?R = None"
      using assms by (rule fig_pattern_no_end)
    moreover have "fig_pattern [] = None"
      by (simp add: fig_pattern_def after_prefix_def)
    ultimately show ?thesis using 1 by simp
  next
    case 2
    then have "after_prefix (bslash # ''begin{figure'') (s @ ?R) = None"
      by (intro after_prefix_short) auto
    moreover have "after_prefix (bslash # ''begin{figure'') s = None"
      using 2 by (intro after_prefix_too_short) simp
    ultimately show ?thesis by (simp add: fig_pattern_def)
  next
    case 3
    show ?thesis
    proof (cases "after_prefix (bslash # ''begin{figure'') s")
      case None
      then show ?thesis using 3 by (simp add: fig_pattern_def after_prefix_long)
    next
      case (Some r)
      then have app: "after_prefix (bslash # ''begin{figure'') (s @ ?R) = Some (r @ ?R)"
        using 3 by (simp add: after_prefix_long)
      show ?thesis
      proof (cases "star_close r")
        case None
        then show ?thesis using Some app by (simp add: fig_pattern_def star_close_append)
      next
        case (Some n)
        then have "n \<le> length r" using star_close_le by blast
        then have "drop n (r @ ?R) = drop n r @ ?R" by simp
        then show ?thesis
          using Some \<open>after_prefix (bslash # ''begin{figure'') s = Some r\<close> app
            lazy_end_append [OF assms, of "drop n r"]
          by (simp add: fig_pattern_def star_close_append)
      qed
    qed
  qed
qed

lemma finditer_no_end: "\<not> has_fig_end s \<Longrightarrow> finditer_from fig_pattern pos s = []"
proof (induction s arbitrary: pos)
  case Nil
  then show ?case by simp
next
  case (Cons c s)
  have "fig_pattern (c # s) = None"
    using Cons.prems by (rule fig_pattern_no_end)
  moreover have "\<not> has_fig_end s"
    using Cons.prems by simp
  ultimately show ?case using Cons.IH by simp
qed

lemma finditer_append:
  assumes "\<not> has_fig_end (bslash # CHR ''b'' # w)"
  shows "finditer_from fig_pattern pos (s @ bslash # CHR ''b'' # w) = finditer_from fig_pattern pos s"
proof (induction "length s" arbitrary: s pos rule: less_induct)
  case less
  let ?R = "bslash # CHR ''b'' # w"
  show ?case
  proof (cases s)
    case Nil
    then show ?thesis using finditer_no_end [OF assms] by simp
  next
    case (Cons c cs)
    have fp: "fig_pattern (c # cs @ ?R) = fig_pattern (c # cs)"
      using fig_pattern_append [OF assms, of "c # cs"] by simp
    show ?thesis
    proof (cases "fig_pattern (c # cs)")
      case None
      then show ?thesis using Cons fp less [of cs] by simp
    next
      case (Some x)
      obtain len g where x: "x = (len, g)" by (cases x)
      have le: "0 < len" "len \<le> length (c # cs)"
        using fig_pattern_le Some x by blast+
      then have "drop (max 1 len) (c # cs @ ?R) = drop (max 1 len) (c # cs) @ ?R"
        using drop_append [of len "c # cs" ?R] by (simp add: max_def)
      moreover have "length (drop (max 1 len) (c # cs)) < length s"
        using le Cons by (simp add: max_def)
      ultimately show ?thesis
        using Cons fp Some x less [of "drop (max 1 len) (c # cs)"] by simp
    qed
  qed
qed

lemma star_close_iff:
  "star_close r \<noteq> None \<longleftrightarrow> (\<exists>b. r = ''*}'' @ b \<or> r = ''}'' @ b)"
  by (auto simp: star_close_def lit_def split: list.splits option.splits)

lemma fig_end_iff:
  "fig_end s \<noteq> None \<longleftrightarrow>
     (\<exists>b. s = bslash # ''end{figure}'' @ b \<or> s = bslash # ''end{figure*}'' @ b)"
proof
  assume "fig_end s \<noteq> None"
  then obtain r where r: "s = bslash # ''end{figure'' @ r" and "star_close r \<noteq> None"
    by (auto simp: fig_end_def after_prefix_Some split: option.splits)
  then obtain b where "r = ''*}'' @ b \<or> r = ''}'' @ b"
    using star_close_iff by blast
  then show "\<exists>b. s = bslash # ''end{figure}'' @ b \<or> s = bslash # ''end{figure*}'' @ b"
    using r by auto
next
  assume "\<exists>b. s = bslash # ''end{figure}'' @ b \<or> s = bslash # ''end{figure*}'' @ b"
  then show "fig_end s \<noteq> None"
    by (auto simp: fig_end_def after_prefix_def star_close_def lit_def)
qed

lemma has_fig_end_split: "has_fig_end s \<longleftrightarrow> (\<exists>a b. s = a @ b \<and> fig_end b \<noteq> None)"
proof (induction s)
  case Nil
  then show ?case by (simp add: fig_end_Nil)
next
  case (Cons c s)
  show ?case
  proof
    assume "has_fig_end (c # s)"
    then consider "fig_end (c # s) \<noteq> None" | "has_fig_end s" by auto
    then show "\<exists>a b. c # s = a @ b \<and> fig_end b \<noteq> None"
    proof cases
      case 1
      then show ?thesis by (intro exI [of _ "[]"] exI [of _ "c # s"]) simp
    next
      case 2
      then obtain a b where "s = a @ b" "fig_end b \<noteq> None" using Cons.IH by blast
      then show ?thesis by (intro exI [of _ "c # a"] exI [of _ b]) simp
    qed
  next
    assume "\<exists>a b. c # s = a @ b \<and> fig_end b \<noteq> None"
    then obtain a b where ab: "c # s = a @ b" "fig_end b \<noteq> None" by blast
    show "has_fig_end (c # s)"
    proof (cases a)
      case Nil
      then show ?thesis using ab by auto
    next
      case (Cons c' a')
      then have "s = a' @ b" using ab by simp
      then have "has_fig_end s" using ab(2) Cons.IH by blast
      then show ?thesis by simp
    qed
  qed
qed

lemma has_fig_end_iff:
  "has_fig_end s \<longleftrightarrow>
     (\<exists>a b. s = a @ bslash # ''end{figure}'' @ b \<or> s = a @ bslash # ''end{figure*}'' @ b)"
  unfolding has_fig_end_split fig_end_iff by blast

lemma has_fig_end_opening:
  "has_fig_end (bslash # ''begin{figure}'' @ post) = has_fig_end post"
  "has_fig_end (bslash # ''begin{figure*}'' @ post) = has_fig_end post"
  by (simp_all add: fig_end_def after_prefix_def)

text \<open>
  C10: an opening of a figure environment with no end marker after it gives no record.
  When the text after the opening \<open>\begin{figure}\<close> or \<open>\begin{figure*}\<close> holds
  neither \<open>\end{figure}\<close> nor \<open>\end{figure*}\<close>, the parser returns for the whole text
  exactly the records, numbers included, that it returns for the text before the
  opening; an unterminated opening at the start of the text gives no record at all.
\<close>

theorem unterminated_figure_no_record:
  "\<not> has_fig_end post \<Longrightarrow>
     parse_figures_from_tex (pre @ bslash # ''begin{figure}'' @ post) = parse_figures_from_tex pre
   \<and> parse_figures_from_tex (pre @ bslash # ''begin{figure*}'' @ post) = parse_figures_from_tex pre
   \<and> parse_figures_from_tex (bslash # ''begin{figure}'' @ post) = []
   \<and> parse_figures_from_tex (bslash # ''begin{figure*}'' @ post) = []
   \<and> (has_fig_end post \<longleftrightarrow>
        (\<exists>a b. post = a @ bslash # ''end{figure}'' @ b \<or> post = a @ bslash # ''end{figure*}'' @ b))"
proof -
  assume no_end: "\<not> has_fig_end post"
  have 1: "\<not> has_fig_end (bslash # CHR ''b'' # ''egin{figure}'' @ post)"
    using no_end has_fig_end_opening(1) [of post] by simp
  have 2: "\<not> has_fig_end (bslash # CHR ''b'' # ''egin{figure*}'' @ post)"
    using no_end has_fig_end_opening(2) [of post] by simp
  have a: "parse_figures_from_tex (s @ bslash # ''begin{figure}'' @ post) = parse_figures_from_tex s" for s
    using finditer_append [OF 1, of 0 s] by (simp add: parse_figures_from_tex_def finditer_def)
  have b: "parse_figures_from_tex (s @ bslash # ''begin{figure*}'' @ post) = parse_figures_from_tex s" for s
    using finditer_append [OF 2, of 0 s] by (simp add: parse_figures_from_tex_def finditer_def)
  have e: "parse_figures_from_tex [] = []"
    by (simp add: parse_figures_from_tex_def finditer_def)
  show ?thesis
    using a [of pre] b [of pre] a [of "[]"] b [of "[]"] e has_fig_end_iff [of post] by simp
qed

theorem unterminated_figure_no_record_witness:
  "\<not> has_fig_end ('' '' @ bslash # ''includegraphics{a} text'')
   \<and> parse_figures_from_tex
       ((bslash # ''begin{figure}'' @ bslash # ''caption{x}'' @ bslash # ''end{figure}'' @ '' and '')
         @ bslash # ''begin{figure}'' @ '' '' @ bslash # ''includegraphics{a} text'')
     = [\<lparr>number = 1, image_paths = [], caption = ''x''\<rparr>]
   \<and> parse_figures_from_tex
       (bslash # ''begin{figure}'' @ bslash # ''caption{x}'' @ bslash # ''end{figure}'' @ '' and '')
     = [\<lparr>number = 1, image_paths = [], caption = ''x''\<rparr>]"
proof -
  have n: "\<not> has_fig_end ('' '' @ bslash # ''includegraphics{a} text'')"
    by code_simp
  have p: "parse_figures_from_tex
       (bslash # ''begin{figure}'' @ bslash # ''caption{x}'' @ bslash # ''end{figure}'' @ '' and '')
     = [\<lparr>number = 1, image_paths = [], caption = ''x''\<rparr>]"
    by code_simp
  from unterminated_figure_no_record [OF n,
      of "bslash # ''begin{figure}'' @ bslash # ''caption{x}'' @ bslash # ''end{figure}'' @ '' and ''"]
  have "parse_figures_from_tex
       ((bslash # ''begin{figure}'' @ bslash # ''caption{x}'' @ bslash # ''end{figure}'' @ '' and '')
         @ bslash # ''begin{figure}'' @ '' '' @ bslash # ''includegraphics{a} text'')
      = parse_figures_from_tex
       (bslash # ''begin{figure}'' @ bslash # ''caption{x}'' @ bslash # ''end{figure}'' @ '' and '')"
    by blast
  then show ?thesis
    using n p by (simp only:) simp
qed

section \<open>Properties of the document assembler\<close>

lemma read_text_known:
  "read_text T p = Some content \<Longrightarrow> \<exists>r. resolve T p = Some r \<and> r \<in> fst ` set (files T)"
  by (auto simp: read_text_def split: option.splits dest: map_of_SomeD intro: rev_image_eqI)

lemma unvisited_insert:
  assumes "r \<in> fst ` set (files T)" "r \<notin> visited st"
  shows "unvisited T \<lparr>visited = insert r (visited st), expanded = e\<rparr> < unvisited T st"
proof -
  have "fst ` set (files T) - insert r (visited st) \<subset> fst ` set (files T) - visited st"
    using assms by auto
  then show ?thesis
    unfolding unvisited_def by (simp add: psubset_card_mono)
qed

lemma unvisited_mono:
  "visited st \<subseteq> visited st' \<Longrightarrow> unvisited T st' \<le> unvisited T st"
  unfolding unvisited_def by (intro card_mono) auto

lemma unvisited_initial: "unvisited T \<lparr>visited = {}, expanded = []\<rparr> \<le> length (files T)"
  unfolding unvisited_def
  by (simp add: card_image_le [THEN le_trans] card_length)

lemma include_loop_deep:
  assumes res: "\<And>p st. unvisited T st < k \<Longrightarrow>
      deep_enough (resolve_tex_content k T p src st) (resolve_tex_content (Suc k) T p src st) st"
  shows "unvisited T st < k \<Longrightarrow>
      deep_enough (include_loop k T p src content ms last_end result st)
        (include_loop (Suc k) T p src content ms last_end result st) st"
proof (induction ms arbitrary: last_end result st)
  case Nil
  then show ?case by (simp add: deep_enough_def)
next
  case (Cons m ms)
  let ?result = "result @ [slice content last_end (m_start m)]"
  show ?case
  proof (cases "find_tex_file T (m_group1 m) (parent T p) src")
    case (Inl e)
    then have "e = OSError"
      by (auto simp: find_tex_file_def split: if_splits)
    then show ?thesis using Inl by (simp add: deep_enough_def Let_def)
  next
    case (Inr found)
    show ?thesis
    proof (cases found)
      case None
      then show ?thesis
        using Inr Cons.IH [OF Cons.prems, of "m_end m" ?result] by (simp add: Let_def)
    next
      case (Some child)
      obtain out st1 where r: "resolve_tex_content k T child src st = (out, st1)"
        by (cases "resolve_tex_content k T child src st")
      from res [OF Cons.prems, of child] r
      have r': "resolve_tex_content (Suc k) T child src st = (out, st1)"
        and nr: "out \<noteq> Inl RecursionError" and sub: "visited st \<subseteq> visited st1"
        by (auto simp: deep_enough_def)
      show ?thesis
      proof (cases out)
        case (Inl e)
        then show ?thesis
          using Inr Some r r' nr sub by (simp add: deep_enough_def Let_def)
      next
        case (Inr tx)
        have "unvisited T st1 < k"
          using unvisited_mono [OF sub, of T] Cons.prems by simp
        from Cons.IH [OF this, of "m_end m" "?result @ [tx]"]
        have "deep_enough (include_loop k T p src content ms (m_end m) (?result @ [tx]) st1)
            (include_loop (Suc k) T p src content ms (m_end m) (?result @ [tx]) st1) st"
          using sub by (auto simp: deep_enough_def)
        then show ?thesis
          using \<open>find_tex_file T (m_group1 m) (parent T p) src = Inr found\<close> Some r r' Inr
          by (simp add: Let_def)
      qed
    qed
  qed
qed

lemma first_file_error: "first_file T cs = Inl e \<Longrightarrow> e = OSError"
  by (induction cs) (auto split: if_splits)

lemma resolve_tex_content_deep:
  "unvisited T st < k \<Longrightarrow>
     deep_enough (resolve_tex_content k T p src st) (resolve_tex_content (Suc k) T p src st) st"
proof (induction k arbitrary: p st)
  case 0
  then show ?case by simp
next
  case (Suc k)
  show ?case
  proof (cases "resolve T p")
    case None
    then show ?thesis by (simp add: deep_enough_def)
  next
    case (Some r)
    show ?thesis
    proof (cases "r \<in> visited st")
      case True
      then show ?thesis using Some by (simp add: deep_enough_def)
    next
      case False
      let ?st = "\<lparr>visited = insert r (visited st), expanded = expanded st @ [r]\<rparr>"
      show ?thesis
      proof (cases "read_text T p")
        case None
        then show ?thesis using Some False by (auto simp: deep_enough_def Let_def)
      next
        case (Some content)
        have "r \<in> fst ` set (files T)"
          using read_text_known [OF Some] \<open>resolve T p = Some r\<close> by auto
        then have "unvisited T ?st < unvisited T st"
          using False by (rule unvisited_insert)
        then have "unvisited T ?st < k" using Suc.prems by simp
        from include_loop_deep [of T k src ?st p content "finditer input_pattern content" 0 "[]",
            OF Suc.IH this]
        have "deep_enough
            (include_loop k T p src content (finditer input_pattern content) 0 [] ?st)
            (include_loop (Suc k) T p src content (finditer input_pattern content) 0 [] ?st) st"
          by (auto simp: deep_enough_def)
        then show ?thesis
          using False Some \<open>resolve T p = Some r\<close> by (simp add: Let_def)
      qed
    qed
  qed
qed

lemma assemble_deep:
  assumes "length (files T) < frames"
  shows "assemble frames T root src = assemble (Suc (length (files T))) T root src"
    and "fst (assemble frames T root src) \<noteq> Inl RecursionError"
proof -
  let ?init = "\<lparr>visited = {}, expanded = []\<rparr>"
  have deep: "deep_enough (resolve_tex_content k T root src ?init)
      (resolve_tex_content (Suc k) T root src ?init) ?init" if "length (files T) < k" for k
    using resolve_tex_content_deep [of T ?init k root src] unvisited_initial [of T] that by simp
  have "Suc (length (files T)) \<le> frames" using assms by simp
  then show "assemble frames T root src = assemble (Suc (length (files T))) T root src"
  proof (induction frames rule: dec_induct)
    case base
    then show ?case by simp
  next
    case (step n)
    then show ?case using deep [of n] unfolding assemble_def deep_enough_def by simp
  qed
  show "fst (assemble frames T root src) \<noteq> Inl RecursionError"
    using deep [OF assms] unfolding assemble_def deep_enough_def by blast
qed

lemma first_file_no_raise: "\<forall>p. \<not> exists_raises T p \<Longrightarrow> first_file T cs \<noteq> Inl e"
  by (induction cs) auto

lemma only_recursion_error:
  "(\<forall>p. \<not> exists_raises T p) \<Longrightarrow> (\<forall>p. resolve T p \<noteq> None) \<Longrightarrow>
     fst (resolve_tex_content k T p src st) = Inl e \<Longrightarrow> e = RecursionError"
  "(\<forall>p. \<not> exists_raises T p) \<Longrightarrow> (\<forall>p. resolve T p \<noteq> None) \<Longrightarrow>
     fst (include_loop k T p src content ms last_end result st) = Inl e \<Longrightarrow> e = RecursionError"
proof (induction k T p src st and k T p src content ms last_end result st
    rule: resolve_tex_content_include_loop.induct)
  case (1 T tex_path src_dir st)
  from "1.prems"(2) obtain r where "resolve T tex_path = Some r" by blast
  then show ?case using "1.prems"(3) by (auto split: if_splits)
next
  case (2 frames T tex_path src_dir st)
  from "2.prems"(2) obtain r where "resolve T tex_path = Some r" by blast
  then show ?case using "2.prems" "2.IH" by (auto simp: Let_def split: if_splits option.splits)
next
  case (3 frames T tex_path src_dir content last_end result st)
  then show ?case by simp
next
  case (4 frames T tex_path src_dir content match rest last_end result st)
  note ex = "4.prems"(1) and rs = "4.prems"(2) and err = "4.prems"(3)
  show ?case
  proof (cases "find_tex_file T (m_group1 match) (parent T tex_path) src_dir")
    case (Inl e')
    then show ?thesis
      using first_file_no_raise [OF ex] unfolding find_tex_file_def Let_def by blast
  next
    case (Inr found)
    note found = this
    show ?thesis
    proof (cases found)
      case None
      then show ?thesis using found err "4.IH"(1) [OF refl refl found None ex rs]
        by (simp add: Let_def)
    next
      case (Some child)
      obtain out st1 where r: "resolve_tex_content frames T child src_dir st = (out, st1)"
        by (cases "resolve_tex_content frames T child src_dir st")
      show ?thesis
      proof (cases out)
        case (Inl e')
        then show ?thesis
          using found Some r err "4.IH"(2) [OF refl refl found Some ex rs]
          by (simp add: Let_def)
      next
        case (Inr tx)
        then show ?thesis
          using found Some r err "4.IH"(3) [OF refl refl found Some r [symmetric] Inr ex rs]
          by (simp add: Let_def)
      qed
    qed
  qed
qed

lemma find_tex_file_raises:
  "exists_raises T (join T parent_dir ref) \<Longrightarrow>
     find_tex_file T ref parent_dir src_dir = Inl OSError"
  by (simp add: find_tex_file_def)

lemma log_ok_preserved:
  "log_ok st \<Longrightarrow> log_ok (snd (resolve_tex_content k T p src st))"
  "log_ok st \<Longrightarrow> log_ok (snd (include_loop k T p src content ms last_end result st))"
proof (induction k T p src st and k T p src content ms last_end result st
    rule: resolve_tex_content_include_loop.induct)
  case (1 T tex_path src_dir st)
  then show ?case by (auto simp: log_ok_def split: option.splits)
next
  case (2 frames T tex_path src_dir st)
  show ?case
  proof (cases "resolve T tex_path")
    case None
    then show ?thesis using "2.prems" by simp
  next
    case (Some r)
    show ?thesis
    proof (cases "r \<in> visited st")
      case True
      then show ?thesis using Some "2.prems" by simp
    next
      case False
      let ?st = "\<lparr>visited = insert r (visited st), expanded = expanded st @ [r]\<rparr>"
      have ok: "log_ok ?st"
        using False "2.prems" by (auto simp: log_ok_def)
      show ?thesis
      proof (cases "read_text T tex_path")
        case None
        then show ?thesis using Some False ok by (simp add: Let_def)
      next
        case (Some content)
        then show ?thesis
          using \<open>resolve T tex_path = Some r\<close> False
            "2.IH" [OF \<open>resolve T tex_path = Some r\<close> False refl Some ok]
          by (simp add: Let_def)
      qed
    qed
  qed
next
  case (3 frames T tex_path src_dir content last_end result st)
  then show ?case by simp
next
  case (4 frames T tex_path src_dir content match rest last_end result st)
  show ?case
  proof (cases "find_tex_file T (m_group1 match) (parent T tex_path) src_dir")
    case (Inl e)
    then show ?thesis using "4.prems" by (simp add: Let_def)
  next
    case (Inr found)
    note found = this
    show ?thesis
    proof (cases found)
      case None
      then show ?thesis
        using found "4.IH"(1) [OF refl refl found None "4.prems"] by (simp add: Let_def)
    next
      case (Some child)
      obtain out st1 where r: "resolve_tex_content frames T child src_dir st = (out, st1)"
        by (cases "resolve_tex_content frames T child src_dir st")
      have ok1: "log_ok st1"
        using "4.IH"(2) [OF refl refl found Some "4.prems"] r by simp
      show ?thesis
      proof (cases out)
        case (Inl e)
        then show ?thesis using found Some r ok1 by (simp add: Let_def)
      next
        case (Inr tx)
        then show ?thesis
          using found Some r "4.IH"(3) [OF refl refl found Some r [symmetric] Inr ok1]
          by (simp add: Let_def)
      qed
    qed
  qed
qed

lemma visited_child_empty:
  "resolve T p = Some r \<Longrightarrow> r \<in> visited st \<Longrightarrow>
     resolve_tex_content (Suc k) T p src st = (Inr [], st)"
  by simp

lemma include_loop_visited_targets:
  "list_all (target_in T p src (visited st)) ms \<Longrightarrow>
     include_loop (Suc k) T p src content ms last_end result st =
       (Inr (concat result @ own_text content ms last_end), st)"
proof (induction ms arbitrary: last_end result)
  case Nil
  then show ?case by simp
next
  case (Cons m ms)
  let ?result = "result @ [slice content last_end (m_start m)]"
  from Cons.prems have t: "target_in T p src (visited st) m"
    and rest: "list_all (target_in T p src (visited st)) ms"
    by simp_all
  show ?case
  proof (cases "find_tex_file T (m_group1 m) (parent T p) src")
    case (Inl e)
    then show ?thesis using t by (simp add: target_in_def)
  next
    case (Inr found)
    show ?thesis
    proof (cases found)
      case None
      then show ?thesis
        using Inr Cons.IH [OF rest, of "m_end m" ?result] by (simp add: Let_def)
    next
      case (Some child)
      then obtain r where "resolve T child = Some r" "r \<in> visited st"
        using t Inr by (auto simp: target_in_def split: option.splits)
      then have "resolve_tex_content (Suc k) T child src st = (Inr [], st)"
        by (rule visited_child_empty)
      then show ?thesis
        using Inr Some Cons.IH [OF rest, of "m_end m" "?result @ [[]]"]
        by (simp add: Let_def)
    qed
  qed
qed

lemma self_contained_file:
  assumes "resolve T p = Some r" "r \<notin> visited st" "read_text T p = Some content"
    and "list_all (target_in T p src (insert r (visited st))) (finditer input_pattern content)"
  shows "resolve_tex_content (Suc (Suc k)) T p src st =
     (Inr (own_text content (finditer input_pattern content) 0),
      \<lparr>visited = insert r (visited st), expanded = expanded st @ [r]\<rparr>)"
proof -
  let ?st = "\<lparr>visited = insert r (visited st), expanded = expanded st @ [r]\<rparr>"
  have "list_all (target_in T p src (visited ?st)) (finditer input_pattern content)"
    using assms(4) by simp
  from include_loop_visited_targets [OF this, of k content 0 "[]"]
  show ?thesis
    using assms(1-3) by (simp add: Let_def)
qed

lemma two_file_cycle:
  assumes a: "resolve T a = Some ra" "ra \<notin> visited st" "read_text T a = Some ca"
    and m: "finditer input_pattern ca = m # rest"
      "find_tex_file T (m_group1 m) (parent T a) src = Inr (Some b)"
    and b: "resolve T b = Some rb" "rb \<noteq> ra" "rb \<notin> visited st" "read_text T b = Some cb"
    and tb: "list_all (target_in T b src (insert rb (insert ra (visited st))))
        (finditer input_pattern cb)"
    and ta: "list_all (target_in T a src (insert rb (insert ra (visited st)))) rest"
  shows "resolve_tex_content (Suc (Suc (Suc k))) T a src st =
     (Inr (slice ca 0 (m_start m) @ own_text cb (finditer input_pattern cb) 0
            @ own_text ca rest (m_end m)),
      \<lparr>visited = insert rb (insert ra (visited st)), expanded = expanded st @ [ra, rb]\<rparr>)"
proof -
  let ?st1 = "\<lparr>visited = insert ra (visited st), expanded = expanded st @ [ra]\<rparr>"
  let ?st2 = "\<lparr>visited = insert rb (insert ra (visited st)), expanded = expanded st @ [ra, rb]\<rparr>"
  have "rb \<notin> visited ?st1" using b(2,3) by simp
  moreover have "list_all (target_in T b src (insert rb (visited ?st1))) (finditer input_pattern cb)"
    using tb by simp
  ultimately have child: "resolve_tex_content (Suc (Suc k)) T b src ?st1 =
      (Inr (own_text cb (finditer input_pattern cb) 0), ?st2)"
    using self_contained_file [OF b(1) _ b(4), of ?st1 src k] by simp
  have "list_all (target_in T a src (visited ?st2)) rest"
    using ta by simp
  from include_loop_visited_targets [OF this, of "Suc k" ca "m_end m"
      "[slice ca 0 (m_start m), own_text cb (finditer input_pattern cb) 0]"]
  have loop: "include_loop (Suc (Suc k)) T a src ca rest (m_end m)
      [slice ca 0 (m_start m), own_text cb (finditer input_pattern cb) 0] ?st2 =
      (Inr (slice ca 0 (m_start m) @ own_text cb (finditer input_pattern cb) 0
            @ own_text ca rest (m_end m)), ?st2)"
    by simp
  have "resolve_tex_content (Suc (Suc (Suc k))) T a src st =
      include_loop (Suc (Suc k)) T a src ca (m # rest) 0 [] ?st1"
    using a m(1) by (simp add: Let_def)
  also have "\<dots> = include_loop (Suc (Suc k)) T a src ca rest (m_end m)
      [slice ca 0 (m_start m), own_text cb (finditer input_pattern cb) 0] ?st2"
    using m(2) child by (simp add: Let_def del: resolve_tex_content.simps)
  finally show ?thesis using loop by simp
qed

text \<open>
  C1: the assembly of any root file in any source tree ends, and it expands each file at
  most once. The model is a total function: every call returns a text or raises. No
  file occurs twice in the log of the calls that passed the visited check, whatever the
  outcome. The calls nest no deeper than the tree has files, plus one: once the
  interpreter allows that many frames the result no longer depends on their number and
  is no \<open>RecursionError\<close>, and it is a text when neither \<open>exists()\<close> nor
  \<open>resolve()\<close> raises. A call for a file that is already visited returns the empty
  text and leaves the state as it is. So a file whose directives name nothing but
  itself gives its own text without the directives; and a file whose first directive
  names a second file, where all other directives of the two name nothing but the two,
  gives its text before the directive, the text of the second file without its
  directives, and the rest of its own text without its directives.
\<close>

theorem assembly_terminates_expanding_once:
  "distinct (expanded (snd (assemble frames T root src)))
   \<and> set (expanded (snd (assemble frames T root src))) = visited (snd (assemble frames T root src))
   \<and> (length (files T) < frames \<longrightarrow>
        assemble frames T root src = assemble (Suc (length (files T))) T root src
        \<and> fst (assemble frames T root src) \<noteq> Inl RecursionError)
   \<and> ((\<forall>p. \<not> exists_raises T p) \<and> (\<forall>p. resolve T p \<noteq> None) \<and> length (files T) < frames \<longrightarrow>
        (\<exists>tx. fst (assemble frames T root src) = Inr tx))
   \<and> (resolve T p = Some r \<and> r \<in> visited st \<longrightarrow>
        resolve_tex_content (Suc k) T p src st = (Inr [], st))
   \<and> (resolve T root = Some r \<and> read_text T root = Some content
        \<and> list_all (target_in T root src {r}) (finditer input_pattern content) \<longrightarrow>
        assemble (Suc (Suc k)) T root src =
          (Inr (own_text content (finditer input_pattern content) 0),
           \<lparr>visited = {r}, expanded = [r]\<rparr>))
   \<and> (resolve T root = Some ra \<and> read_text T root = Some ca
        \<and> finditer input_pattern ca = m # rest
        \<and> find_tex_file T (m_group1 m) (parent T root) src = Inr (Some b)
        \<and> resolve T b = Some rb \<and> rb \<noteq> ra \<and> read_text T b = Some cb
        \<and> list_all (target_in T b src {rb, ra}) (finditer input_pattern cb)
        \<and> list_all (target_in T root src {rb, ra}) rest \<longrightarrow>
        assemble (Suc (Suc (Suc k))) T root src =
          (Inr (slice ca 0 (m_start m) @ own_text cb (finditer input_pattern cb) 0
                 @ own_text ca rest (m_end m)),
           \<lparr>visited = {rb, ra}, expanded = [ra, rb]\<rparr>))"
proof -
  let ?init = "\<lparr>visited = {}, expanded = []\<rparr>"
  have "log_ok ?init" by (simp add: log_ok_def)
  then have "log_ok (snd (assemble frames T root src))"
    unfolding assemble_def by (rule log_ok_preserved(1))
  then have 1: "distinct (expanded (snd (assemble frames T root src)))"
    "set (expanded (snd (assemble frames T root src))) = visited (snd (assemble frames T root src))"
    by (simp_all add: log_ok_def)
  have 2: "assemble frames T root src = assemble (Suc (length (files T))) T root src
        \<and> fst (assemble frames T root src) \<noteq> Inl RecursionError"
    if "length (files T) < frames"
    using assemble_deep [OF that] by blast
  have 3: "\<exists>tx. fst (assemble frames T root src) = Inr tx"
    if "\<forall>p. \<not> exists_raises T p" "\<forall>p. resolve T p \<noteq> None" "length (files T) < frames"
  proof (cases "fst (assemble frames T root src)")
    case (Inl e)
    then have "e = RecursionError"
      using only_recursion_error(1) [OF that(1,2)] unfolding assemble_def by blast
    then show ?thesis using Inl 2 [OF that(3)] by metis
  next
    case (Inr tx)
    then show ?thesis by blast
  qed
  have 5: "assemble (Suc (Suc k)) T root src =
          (Inr (own_text content (finditer input_pattern content) 0),
           \<lparr>visited = {r}, expanded = [r]\<rparr>)"
    if "resolve T root = Some r" "read_text T root = Some content"
      "list_all (target_in T root src {r}) (finditer input_pattern content)"
    using self_contained_file [OF that(1) _ that(2), of ?init src k] that(3)
    unfolding assemble_def by simp
  have 6: "assemble (Suc (Suc (Suc k))) T root src =
          (Inr (slice ca 0 (m_start m) @ own_text cb (finditer input_pattern cb) 0
                 @ own_text ca rest (m_end m)),
           \<lparr>visited = {rb, ra}, expanded = [ra, rb]\<rparr>)"
    if "resolve T root = Some ra" "read_text T root = Some ca"
      "finditer input_pattern ca = m # rest"
      "find_tex_file T (m_group1 m) (parent T root) src = Inr (Some b)"
      "resolve T b = Some rb" "rb \<noteq> ra" "read_text T b = Some cb"
      "list_all (target_in T b src {rb, ra}) (finditer input_pattern cb)"
      "list_all (target_in T root src {rb, ra}) rest"
    using two_file_cycle [OF that(1) _ that(2,3,4,5,6) _ that(7), of ?init k] that(8,9)
    unfolding assemble_def by simp
  have c2: "length (files T) < frames \<longrightarrow>
        assemble frames T root src = assemble (Suc (length (files T))) T root src
        \<and> fst (assemble frames T root src) \<noteq> Inl RecursionError"
    using 2 by blast
  have c3: "(\<forall>p. \<not> exists_raises T p) \<and> (\<forall>p. resolve T p \<noteq> None) \<and> length (files T) < frames \<longrightarrow>
        (\<exists>tx. fst (assemble frames T root src) = Inr tx)"
    using 3 by blast
  have c4: "resolve T p = Some r \<and> r \<in> visited st \<longrightarrow>
        resolve_tex_content (Suc k) T p src st = (Inr [], st)"
    using visited_child_empty by blast
  have c5: "resolve T root = Some r \<and> read_text T root = Some content
        \<and> list_all (target_in T root src {r}) (finditer input_pattern content) \<longrightarrow>
        assemble (Suc (Suc k)) T root src =
          (Inr (own_text content (finditer input_pattern content) 0),
           \<lparr>visited = {r}, expanded = [r]\<rparr>)"
    using 5 by blast
  have c6: "resolve T root = Some ra \<and> read_text T root = Some ca
        \<and> finditer input_pattern ca = m # rest
        \<and> find_tex_file T (m_group1 m) (parent T root) src = Inr (Some b)
        \<and> resolve T b = Some rb \<and> rb \<noteq> ra \<and> read_text T b = Some cb
        \<and> list_all (target_in T b src {rb, ra}) (finditer input_pattern cb)
        \<and> list_all (target_in T root src {rb, ra}) rest \<longrightarrow>
        assemble (Suc (Suc (Suc k))) T root src =
          (Inr (slice ca 0 (m_start m) @ own_text cb (finditer input_pattern cb) 0
                 @ own_text ca rest (m_end m)),
           \<lparr>visited = {rb, ra}, expanded = [ra, rb]\<rparr>)"
    using 6 by blast
  show ?thesis
    by (intro conjI) (fact 1 c2 c3 c4 c5 c6)+
qed

theorem assembly_terminates_expanding_once_witness:
  "length (files (flat_tree [(''a.tex'', Some (''X'' @ bslash # ''input{a}Y'' @ bslash # ''include{a.tex}Z''))])) < 5
   \<and> list_all
        (target_in (flat_tree [(''a.tex'', Some (''X'' @ bslash # ''input{a}Y'' @ bslash # ''include{a.tex}Z''))])
           ''a.tex'' [] {''a.tex''})
        (finditer input_pattern (''X'' @ bslash # ''input{a}Y'' @ bslash # ''include{a.tex}Z''))
   \<and> assemble 5 (flat_tree [(''a.tex'', Some (''X'' @ bslash # ''input{a}Y'' @ bslash # ''include{a.tex}Z''))])
         ''a.tex'' []
       = (Inr ''XYZ'', \<lparr>visited = {''a.tex''}, expanded = [''a.tex'']\<rparr>)
   \<and> resolve_tex_content (Suc 0)
         (flat_tree [(''a.tex'', Some (''X'' @ bslash # ''input{a}Y'' @ bslash # ''include{a.tex}Z''))])
         ''a.tex'' [] \<lparr>visited = {''a.tex''}, expanded = [''a.tex'']\<rparr>
       = (Inr [], \<lparr>visited = {''a.tex''}, expanded = [''a.tex'']\<rparr>)
   \<and> assemble 3
         (flat_tree [(''a.tex'', Some (''A1'' @ bslash # ''input{b}A2'' @ bslash # ''include{b}A3'')),
                     (''b.tex'', Some (''B1'' @ bslash # ''input{a}B2''))])
         ''a.tex'' []
       = (Inr ''A1B1B2A2A3'', \<lparr>visited = {''b.tex'', ''a.tex''}, expanded = [''a.tex'', ''b.tex'']\<rparr>)"
proof -
  define cs where "cs = ''X'' @ bslash # ''input{a}Y'' @ bslash # ''include{a.tex}Z''"
  define ca where "ca = ''A1'' @ bslash # ''input{b}A2'' @ bslash # ''include{b}A3''"
  define cb where "cb = ''B1'' @ bslash # ''input{a}B2''"
  define Ts where "Ts = flat_tree [(''a.tex'', Some cs)]"
  define Tc where "Tc = flat_tree [(''a.tex'', Some ca), (''b.tex'', Some cb)]"
  define m1 where "m1 = \<lparr>m_start = 2, m_end = 11, m_group1 = ''b''\<rparr>"
  define m2 where "m2 = \<lparr>m_start = 13, m_end = 24, m_group1 = ''b''\<rparr>"
  have fs: "finditer input_pattern cs =
      [\<lparr>m_start = 1, m_end = 10, m_group1 = ''a''\<rparr>,
       \<lparr>m_start = 11, m_end = 26, m_group1 = ''a.tex''\<rparr>]"
    unfolding cs_def by code_simp
  have fa: "finditer input_pattern ca = m1 # [m2]"
    unfolding ca_def m1_def m2_def by code_simp
  have fb: "finditer input_pattern cb = [\<lparr>m_start = 2, m_end = 11, m_group1 = ''a''\<rparr>]"
    unfolding cb_def by code_simp
  have len: "length (files Ts) < 5"
    unfolding Ts_def flat_tree_def by simp
  have rs: "resolve Ts ''a.tex'' = Some ''a.tex''" "read_text Ts ''a.tex'' = Some cs"
    unfolding Ts_def flat_tree_def read_text_def by simp_all
  have ts: "list_all (target_in Ts ''a.tex'' [] {''a.tex''}) (finditer input_pattern cs)"
    unfolding fs unfolding Ts_def flat_tree_def
    by (simp add: target_in_def find_tex_file_def is_file_def)
  have os: "own_text cs (finditer input_pattern cs) 0 = ''XYZ''"
    unfolding fs unfolding cs_def by (simp add: slice_def)
  have rc: "resolve Tc ''a.tex'' = Some ''a.tex''" "read_text Tc ''a.tex'' = Some ca"
    "resolve Tc ''b.tex'' = Some ''b.tex''" "read_text Tc ''b.tex'' = Some cb"
    "find_tex_file Tc (m_group1 m1) (parent Tc ''a.tex'') [] = Inr (Some ''b.tex'')"
    unfolding Tc_def flat_tree_def read_text_def m1_def
    by (simp_all add: find_tex_file_def is_file_def)
  have tc: "list_all (target_in Tc ''b.tex'' [] {''b.tex'', ''a.tex''}) (finditer input_pattern cb)"
    "list_all (target_in Tc ''a.tex'' [] {''b.tex'', ''a.tex''}) [m2]"
    unfolding fb unfolding Tc_def flat_tree_def m2_def
    by (simp_all add: target_in_def find_tex_file_def is_file_def)
  have oc: "slice ca 0 (m_start m1) @ own_text cb (finditer input_pattern cb) 0
      @ own_text ca [m2] (m_end m1) = ''A1B1B2A2A3''"
    unfolding fb unfolding ca_def cb_def m1_def m2_def by (simp add: slice_def)
  note s = assembly_terminates_expanding_once
      [where T = Ts and frames = 5 and root = "''a.tex''" and src = "[]" and p = "''a.tex''"
        and r = "''a.tex''" and st = "\<lparr>visited = {''a.tex''}, expanded = [''a.tex'']\<rparr>"
        and k = 0 and content = cs]
  note c = assembly_terminates_expanding_once
      [where T = Tc and root = "''a.tex''" and src = "[]" and k = 0 and ra = "''a.tex''"
        and ca = ca and m = m1 and rest = "[m2]" and b = "''b.tex''" and rb = "''b.tex''"
        and cb = cb]
  have s2: "assemble (Suc (Suc 0)) Ts ''a.tex'' [] =
      (Inr ''XYZ'', \<lparr>visited = {''a.tex''}, expanded = [''a.tex'']\<rparr>)"
    using s rs ts os by simp
  have s5: "assemble 5 Ts ''a.tex'' [] = assemble (Suc (Suc 0)) Ts ''a.tex'' []"
    using s len unfolding Ts_def flat_tree_def by simp
  have sv: "resolve_tex_content (Suc 0) Ts ''a.tex'' []
        \<lparr>visited = {''a.tex''}, expanded = [''a.tex'']\<rparr>
      = (Inr [], \<lparr>visited = {''a.tex''}, expanded = [''a.tex'']\<rparr>)"
    using s rs(1) by (simp del: resolve_tex_content.simps)
  have c3: "assemble (Suc (Suc (Suc 0))) Tc ''a.tex'' [] =
      (Inr ''A1B1B2A2A3'', \<lparr>visited = {''b.tex'', ''a.tex''}, expanded = [''a.tex'', ''b.tex'']\<rparr>)"
    using c rc tc fa oc by simp
  have "length (files Ts) < 5
    \<and> list_all (target_in Ts ''a.tex'' [] {''a.tex''}) (finditer input_pattern cs)
    \<and> assemble 5 Ts ''a.tex'' [] = (Inr ''XYZ'', \<lparr>visited = {''a.tex''}, expanded = [''a.tex'']\<rparr>)
    \<and> resolve_tex_content (Suc 0) Ts ''a.tex'' [] \<lparr>visited = {''a.tex''}, expanded = [''a.tex'']\<rparr>
        = (Inr [], \<lparr>visited = {''a.tex''}, expanded = [''a.tex'']\<rparr>)
    \<and> assemble 3 Tc ''a.tex'' [] =
      (Inr ''A1B1B2A2A3'', \<lparr>visited = {''b.tex'', ''a.tex''}, expanded = [''a.tex'', ''b.tex'']\<rparr>)"
    using len ts s2 s5 sv c3 by (simp only: numeral_3_eq_3)
  then show ?thesis
    unfolding Ts_def Tc_def cs_def ca_def cb_def .
qed

end
